theory Spec2Isabelle
  imports Complex_Main "HOL-Library.Monad_Syntax" "HOL-Library.Multiset" "HOL-Library.Log_Nat"
begin

section \<open>Machine integers of the micro-benchmark\<close>

text \<open>
  The C++ type \<^verbatim>\<open>int\<close> is a 32-bit two's complement integer. Signed overflow is
  undefined behaviour, so every arithmetic operation of the model is checked: it returns
  \<open>None\<close> as soon as an intermediate value leaves the range, and \<open>Some\<close> of the
  mathematical result otherwise.
\<close>

definition INT_MIN :: int where
  "INT_MIN = - 2147483648"

definition INT_MAX :: int where
  "INT_MAX = 2147483647"

definition in_int :: "int \<Rightarrow> bool" where
  "in_int x = (INT_MIN \<le> x \<and> x \<le> INT_MAX)"

definition checked :: "int \<Rightarrow> int option" where
  "checked x = (if in_int x then Some x else None)"

definition int_add :: "int \<Rightarrow> int \<Rightarrow> int option" where
  "int_add a b = checked (a + b)"

definition int_sub :: "int \<Rightarrow> int \<Rightarrow> int option" where
  "int_sub a b = checked (a - b)"

definition int_mul :: "int \<Rightarrow> int \<Rightarrow> int option" where
  "int_mul a b = checked (a * b)"

text \<open>C++ integer division truncates towards zero; division by zero is undefined.\<close>

definition int_div :: "int \<Rightarrow> int \<Rightarrow> int option" where
  "int_div a b = (if b = 0 then None else checked (sgn a * sgn b * (\<bar>a\<bar> div \<bar>b\<bar>)))"

section \<open>Matrix size: loop and closed formula (micro\_benchmark.cpp)\<close>

text \<open>
  \<^verbatim>\<open>int old_getMatrixSize(int len, int w) {
    int size = 0;
    for(int i = 1; i <= w; i++){ size += len-(i-1); }
    return size; }\<close>
  The loop state is \<open>(i, sz)\<close>, where \<open>sz\<close> stands for the variable \<^verbatim>\<open>size\<close>. One
  round computes \<open>i-1\<close>, \<open>len-(i-1)\<close>, the new \<^verbatim>\<open>size\<close> and \<^verbatim>\<open>i++\<close>, in this order.
\<close>

function old_loop :: "int \<Rightarrow> int \<Rightarrow> int \<Rightarrow> int \<Rightarrow> int option" where
  "old_loop len w i sz =
     (if i \<le> w then
        (case int_sub i 1 of None \<Rightarrow> None | Some a \<Rightarrow>
         (case int_sub len a of None \<Rightarrow> None | Some b \<Rightarrow>
          (case int_add sz b of None \<Rightarrow> None | Some sz' \<Rightarrow>
           (case int_add i 1 of None \<Rightarrow> None | Some i' \<Rightarrow> old_loop len w i' sz'))))
      else Some sz)"
  by pat_completeness auto
termination
  by (relation "measure (\<lambda>(len, w, i, sz). nat (w + 1 - i))")
     (auto simp: int_add_def checked_def split: if_splits)

definition old_getMatrixSize :: "int \<Rightarrow> int \<Rightarrow> int option" where
  "old_getMatrixSize len w = old_loop len w 1 0"

text \<open>
  \<^verbatim>\<open>constexpr int new_getMatrixSize(const int len, const int w) noexcept {
    const int size = (w <= len) ? w * len - (w * (w - 1)) / 2 : (len * (len + 1)) / 2;
    return size; }\<close>
\<close>

definition new_getMatrixSize :: "int \<Rightarrow> int \<Rightarrow> int option" where
  "new_getMatrixSize len w =
     (if w \<le> len then
        do { a \<leftarrow> int_mul w len;
             b \<leftarrow> int_sub w 1;
             c \<leftarrow> int_mul w b;
             d \<leftarrow> int_div c 2;
             int_sub a d }
      else
        do { a \<leftarrow> int_add len 1;
             b \<leftarrow> int_mul len a;
             int_div b 2 })"

text \<open>
  The value of \<^verbatim>\<open>size\<close> after \<open>k\<close> rounds of the loop, as a closed expression. It is
  used to state the loop invariant only.
\<close>

definition tri :: "int \<Rightarrow> int \<Rightarrow> int" where
  "tri len k = k * len - (k * (k - 1)) div 2"

section \<open>Double precision arithmetic\<close>

text \<open>
  The C++ type \<^verbatim>\<open>double\<close> is IEEE 754 binary64. A finite double is a rational number
  \<open>m * 2^e\<close> with \<open>\<bar>m\<bar> < 2^53\<close> and \<open>- 1074 \<le> e\<close>; every arithmetic operation returns the
  exact result rounded to the nearest such number, ties to the even mantissa.

  \<open>rne\<close> rounds a rational to the nearest integer, ties to even. \<open>ilog2 x\<close> is the
  binary exponent of a positive \<open>x\<close>, computed from the bit lengths of numerator and
  denominator. \<open>quantum x\<close> is the exponent of the spacing of the doubles around \<open>x\<close>:
  \<open>2^(e - 52)\<close> in the binade of \<open>x\<close>, and never finer than the subnormal spacing
  \<open>2^(- 1074)\<close>. \<open>round_double\<close> rounds to the nearest multiple of that spacing, and
  \<open>is_double\<close> holds of the numbers that it leaves unchanged.
\<close>

definition rne :: "rat \<Rightarrow> int" where
  "rne x = (let f = \<lfloor>x\<rfloor>; d = x - of_int f in
            if d < 1 / 2 then f else if 1 / 2 < d then f + 1 else if even f then f else f + 1)"

definition ilog2 :: "rat \<Rightarrow> int" where
  "ilog2 x = (case quotient_of x of (p, q) \<Rightarrow>
      let e = bitlen p - bitlen q in if 2 powi e \<le> x then e else e - 1)"

definition quantum :: "rat \<Rightarrow> int" where
  "quantum x = max (ilog2 x - 52) (- 1074)"

definition round_double :: "rat \<Rightarrow> rat" where
  "round_double x = (if x = 0 then 0 else
      let q = 2 powi quantum \<bar>x\<bar>
      in sgn x * of_int (rne (\<bar>x\<bar> / q)) * q)"

definition is_double :: "rat \<Rightarrow> bool" where
  "is_double x = (round_double x = x)"

text \<open>
  The values of a \<^verbatim>\<open>double\<close> variable. A rounded result of magnitude \<open>2^1024\<close> or more
  is an infinity. The sign of a zero is not represented. It matters only when a zero is a
  divisor, and the divisors of this program are quotients of an integer tick count by
  \<open>1000.0\<close>, which are never \<open>-0.0\<close>: a zero divisor is \<open>+0.0\<close>.
\<close>

datatype double = Finite rat | PosInf | NegInf | NaN

definition dbl_of :: "rat \<Rightarrow> double" where
  "dbl_of x = (let r = round_double x in
     if 2 ^ 1024 \<le> r then PosInf else if r \<le> - (2 ^ 1024) then NegInf else Finite r)"

fun fsub :: "double \<Rightarrow> double \<Rightarrow> double" where
  "fsub (Finite a) (Finite b) = dbl_of (a - b)"
| "fsub NaN y = NaN"
| "fsub x NaN = NaN"
| "fsub PosInf PosInf = NaN"
| "fsub NegInf NegInf = NaN"
| "fsub PosInf y = PosInf"
| "fsub NegInf y = NegInf"
| "fsub (Finite a) PosInf = NegInf"
| "fsub (Finite a) NegInf = PosInf"

fun fneg :: "double \<Rightarrow> double" where
  "fneg (Finite a) = Finite (- a)"
| "fneg PosInf = NegInf"
| "fneg NegInf = PosInf"
| "fneg NaN = NaN"

fun fdiv :: "double \<Rightarrow> double \<Rightarrow> double" where
  "fdiv (Finite a) (Finite b) =
     (if b = 0 then (if a = 0 then NaN else if 0 < a then PosInf else NegInf)
      else dbl_of (a / b))"
| "fdiv NaN y = NaN"
| "fdiv x NaN = NaN"
| "fdiv (Finite a) y = Finite 0"
| "fdiv x (Finite b) = (if 0 \<le> b then x else fneg x)"
| "fdiv x y = NaN"

fun fmul :: "double \<Rightarrow> double \<Rightarrow> double" where
  "fmul (Finite a) (Finite b) = dbl_of (a * b)"
| "fmul NaN y = NaN"
| "fmul x NaN = NaN"
| "fmul (Finite a) y = (if a = 0 then NaN else if 0 < a then y else fneg y)"
| "fmul x (Finite b) = (if b = 0 then NaN else if 0 < b then x else fneg x)"
| "fmul PosInf y = y"
| "fmul NegInf y = fneg y"

text \<open>
  Both programs read the clock as an integer count of microseconds and convert it with
  \<^verbatim>\<open>duration.count() / 1000.0\<close>: the count is converted to \<^verbatim>\<open>double\<close>, then divided.
  A 64-bit count is far from the overflow threshold, so the result is finite.
\<close>

definition elapsed_ms :: "int \<Rightarrow> rat" where
  "elapsed_ms ticks = round_double (round_double (of_int ticks) / 1000)"

section \<open>Improvement percentage (micro\_benchmark.cpp)\<close>

text \<open>
  \<^verbatim>\<open>double improvement = ((old_time - new_time) / old_time) * 100;\<close>
  with \<^verbatim>\<open>old_time\<close> and \<^verbatim>\<open>new_time\<close> the two values returned by \<^verbatim>\<open>timeFunction\<close>.
  The same line closes each of the four comparisons.
\<close>

definition improvement :: "rat \<Rightarrow> rat \<Rightarrow> double" where
  "improvement old_time new_time =
     fmul (fdiv (fsub (Finite old_time) (Finite new_time)) (Finite old_time)) (Finite 100)"

section \<open>Strings of the harness (benchmark.cpp)\<close>

text \<open>
  \<^verbatim>\<open>size_t\<close> is a 64-bit unsigned integer, whose arithmetic wraps around.
  \<^verbatim>\<open>std::to_string\<close> prints an unsigned value in decimal without leading zeros.
\<close>

definition size_add :: "nat \<Rightarrow> nat \<Rightarrow> nat" where
  "size_add a b = (a + b) mod 2 ^ 64"

definition size_sub :: "nat \<Rightarrow> nat \<Rightarrow> nat" where
  "size_sub a b = (a + 2 ^ 64 - b mod 2 ^ 64) mod 2 ^ 64"

definition digit_char :: "nat \<Rightarrow> char" where
  "digit_char d = char_of (48 + d)"

function to_string :: "nat \<Rightarrow> string" where
  "to_string n = (if n < 10 then [digit_char n] else to_string (n div 10) @ [digit_char (n mod 10)])"
  by pat_completeness auto
termination
  by (relation "measure id") auto

declare to_string.simps [simp del]

text \<open>
  \<^verbatim>\<open>string::find(char)\<close> returns the index of the first occurrence, or \<^verbatim>\<open>npos\<close>.
  \<^verbatim>\<open>string::substr(pos, n)\<close> throws \<^verbatim>\<open>out_of_range\<close> when \<open>pos\<close> exceeds the size and
  clips \<open>n\<close> to the rest of the string otherwise.
\<close>

datatype error = InvalidArgument | OutOfRange

definition npos :: nat where
  "npos = 2 ^ 64 - 1"

fun find_from :: "char \<Rightarrow> string \<Rightarrow> nat \<Rightarrow> nat" where
  "find_from c [] i = npos"
| "find_from c (x # xs) i = (if x = c then i else find_from c xs (Suc i))"

definition find_char :: "string \<Rightarrow> char \<Rightarrow> nat" where
  "find_char s c = find_from c s 0"

definition substr :: "string \<Rightarrow> nat \<Rightarrow> nat \<Rightarrow> error + string" where
  "substr s pos n =
     (if length s < pos then Inl OutOfRange else Inr (take (min n (length s - pos)) (drop pos s)))"

text \<open>
  \<^verbatim>\<open>std::stoi(str)\<close> converts in base 10 as \<^verbatim>\<open>strtol\<close> does: it skips leading white
  space, reads an optional sign and the longest run of decimal digits, throws
  \<^verbatim>\<open>invalid_argument\<close> when there is no digit and \<^verbatim>\<open>out_of_range\<close> when the value is not
  an \<^verbatim>\<open>int\<close>. Characters after the digits are ignored.
\<close>

definition isspace :: "char \<Rightarrow> bool" where
  "isspace c = (c = CHR '' '' \<or> (9 \<le> (of_char c :: nat) \<and> (of_char c :: nat) \<le> 13))"

definition isdigit :: "char \<Rightarrow> bool" where
  "isdigit c = (48 \<le> (of_char c :: nat) \<and> (of_char c :: nat) \<le> 57)"

definition digit_value :: "char \<Rightarrow> int" where
  "digit_value c = int (of_char c) - 48"

fun accumulate :: "int \<Rightarrow> string \<Rightarrow> int" where
  "accumulate acc [] = acc"
| "accumulate acc (c # cs) = accumulate (acc * 10 + digit_value c) cs"

definition stoi :: "string \<Rightarrow> error + int" where
  "stoi str =
     (let s = dropWhile isspace str;
          negative = (s \<noteq> [] \<and> hd s = CHR ''-'');
          s' = (if s \<noteq> [] \<and> (hd s = CHR ''-'' \<or> hd s = CHR ''+'') then tl s else s);
          ds = takeWhile isdigit s';
          v = (if negative then - accumulate 0 ds else accumulate 0 ds)
      in if ds = [] then Inl InvalidArgument
         else if in_int v then Inr v else Inl OutOfRange)"

section \<open>Corpus generator (benchmark.cpp)\<close>

text \<open>
  The generator \<^verbatim>\<open>mt19937 rng\<close> is a member of the benchmark object, seeded once by the
  constructor, and \<^verbatim>\<open>dist(rng)\<close> draws an index and advances it. The engine and the
  distribution belong to the C++ library; the model takes them as a parameter
  \<open>draw\<close>, which maps a generator state to the index drawn and the next state.
  \<^verbatim>\<open>std::uniform_int_distribution<int> dist(0, amino_acids.length() - 1)\<close> draws indices
  from \<open>0\<close> to \<open>20\<close>.

  \<^verbatim>\<open>string generateTestSequence(size_t length) {
    const string amino_acids = "ACDEFGHIKLMNPQRSTVWY*";
    string sequence = ">";
    sequence += to_string(length);
    sequence += "_test_sequence\n";
    uniform_int_distribution<int> dist(0, amino_acids.length() - 1);
    for (size_t i = 0; i < length; ++i) { sequence += amino_acids[dist(rng)]; }
    return sequence; }\<close>
\<close>

definition amino_acids :: string where
  "amino_acids = ''ACDEFGHIKLMNPQRSTVWY*''"

definition header :: "nat \<Rightarrow> string" where
  "header len = ''>'' @ to_string len @ ''_test_sequence'' @ [CHR 0x0A]"

fun sequence_loop :: "('g \<Rightarrow> nat \<times> 'g) \<Rightarrow> nat \<Rightarrow> string \<Rightarrow> 'g \<Rightarrow> string \<times> 'g" where
  "sequence_loop draw 0 sequence rng = (sequence, rng)"
| "sequence_loop draw (Suc n) sequence rng =
     (case draw rng of (k, rng') \<Rightarrow> sequence_loop draw n (sequence @ [amino_acids ! k]) rng')"

definition generateTestSequence :: "('g \<Rightarrow> nat \<times> 'g) \<Rightarrow> nat \<Rightarrow> 'g \<Rightarrow> string \<times> 'g" where
  "generateTestSequence draw len rng = sequence_loop draw len (header len) rng"

text \<open>
  The indices of the next \<open>n\<close> draws from a state, and the state after them. They
  describe what the loop consumes.
\<close>

fun draws :: "('g \<Rightarrow> nat \<times> 'g) \<Rightarrow> nat \<Rightarrow> 'g \<Rightarrow> nat list" where
  "draws draw 0 rng = []"
| "draws draw (Suc n) rng = (case draw rng of (k, rng') \<Rightarrow> k # draws draw n rng')"

fun advance :: "('g \<Rightarrow> nat \<times> 'g) \<Rightarrow> nat \<Rightarrow> 'g \<Rightarrow> 'g" where
  "advance draw 0 rng = rng"
| "advance draw (Suc n) rng = advance draw n (snd (draw rng))"

text \<open>
  \<^verbatim>\<open>createTestFiles\<close> writes one file per length, named \<^verbatim>\<open>"test_" + to_string(len) + ".faa"\<close>.
  The model returns the files written, in order, and the generator state.
\<close>

definition lengths :: "nat list" where
  "lengths = [10, 25, 50, 100, 200, 500, 1000]"

definition test_filename :: "nat \<Rightarrow> string" where
  "test_filename len = ''test_'' @ to_string len @ ''.faa''"

fun write_files :: "('g \<Rightarrow> nat \<times> 'g) \<Rightarrow> nat list \<Rightarrow> 'g \<Rightarrow> (string \<times> string) list \<times> 'g" where
  "write_files draw [] rng = ([], rng)"
| "write_files draw (len # lens) rng =
     (case generateTestSequence draw len rng of (content, rng') \<Rightarrow>
        (case write_files draw lens rng' of (files, rng'') \<Rightarrow>
           ((test_filename len, content) # files, rng'')))"

definition createTestFiles :: "('g \<Rightarrow> nat \<times> 'g) \<Rightarrow> 'g \<Rightarrow> (string \<times> string) list \<times> 'g" where
  "createTestFiles draw rng = write_files draw lengths rng"

text \<open>
  A counting generator, used to run the generator on a concrete input: its state is the
  number of draws made so far.
\<close>

definition counter_draw :: "nat \<Rightarrow> nat \<times> nat" where
  "counter_draw s = (s mod 21, Suc s)"

section \<open>Process runner (benchmark.cpp)\<close>

text \<open>
  \<^verbatim>\<open>system(command)\<close> and the clock are the environment of the harness. The model takes
  it as a function \<open>sys\<close> from the command line to the status returned by \<^verbatim>\<open>system\<close>
  and the number of microseconds the timer measures around the call.

  \<^verbatim>\<open>double benchmarkCDSfold(const string& test_file, const string& options = "") {
    Timer timer;
    string command = "./src/CDSfold " + options + " " + test_file;
    command += " > /dev/null 2>&1";
    int result = system(command.c_str());
    double elapsed = timer.elapsed_ms();
    if (result != 0) { cerr << "Warning: ..." << endl; return -1.0; }
    return elapsed; }\<close>
\<close>

type_synonym env = "string \<Rightarrow> int \<times> int"

definition command_line :: "string \<Rightarrow> string \<Rightarrow> string" where
  "command_line test_file options =
     ''./src/CDSfold '' @ options @ '' '' @ test_file @ '' > /dev/null 2>&1''"

definition benchmarkCDSfold :: "env \<Rightarrow> string \<Rightarrow> string \<Rightarrow> rat" where
  "benchmarkCDSfold sys test_file options =
     (case sys (command_line test_file options) of (result, ticks) \<Rightarrow>
        let elapsed = elapsed_ms ticks in if result \<noteq> 0 then - 1 else elapsed)"

text \<open>
  An environment in which every command returns the same status after the same time.
\<close>

definition uniform_env :: "int \<Rightarrow> int \<Rightarrow> env" where
  "uniform_env result ticks command = (result, ticks)"

text \<open>
  An environment given by a table: a listed command returns its status and time, every
  other command fails.
\<close>

definition table_env :: "(string \<times> int \<times> int) list \<Rightarrow> env" where
  "table_env tab command = (case map_of tab command of None \<Rightarrow> (1, 0) | Some r \<Rightarrow> r)"

section \<open>Matrix runner (benchmark.cpp)\<close>

text \<open>
  The member \<^verbatim>\<open>map<string, vector<double>> results\<close> is a map from the configuration
  label to the samples recorded, in arrival order; \<^verbatim>\<open>results[label].push_back(t)\<close>
  creates the entry when it is missing. Only positive times are recorded, and they are
  finite.
\<close>

type_synonym results = "string \<rightharpoonup> rat list"

definition samples_of :: "results \<Rightarrow> string \<Rightarrow> rat list" where
  "samples_of res label = (case res label of None \<Rightarrow> [] | Some v \<Rightarrow> v)"

definition push_back :: "results \<Rightarrow> string \<Rightarrow> rat \<Rightarrow> results" where
  "push_back res label t = res(label \<mapsto> samples_of res label @ [t])"

text \<open>
  The throughput column is \<^verbatim>\<open>to_string(int(seq_length * 1000.0 / time_ms)) + " aa/s"\<close>
  or \<^verbatim>\<open>"N/A"\<close>. The conversion to \<^verbatim>\<open>int\<close> truncates and is undefined outside the range
  of \<^verbatim>\<open>int\<close>.
\<close>

datatype throughput = NotAvailable | Rate int | Undefined

definition double_to_int :: "rat \<Rightarrow> int" where
  "double_to_int x = (if 0 \<le> x then \<lfloor>x\<rfloor> else \<lceil>x\<rceil>)"

definition rate :: "int \<Rightarrow> rat \<Rightarrow> throughput" where
  "rate seq_length time_ms =
     (let r = double_to_int (round_double (round_double (round_double (of_int seq_length) * 1000) / time_ms))
      in if in_int r then Rate r else Undefined)"

record row =
  row_file :: string
  row_config :: string
  row_time_ms :: rat
  row_throughput :: throughput
  row_status :: string

text \<open>
  One round of the inner loop of \<^verbatim>\<open>runBenchmarkSuite\<close>: run the cell, print its row and
  record the time when it is positive. The state is the rows printed so far and
  \<^verbatim>\<open>results\<close>.
\<close>

definition run_cell ::
  "env \<Rightarrow> string \<Rightarrow> int \<Rightarrow> string \<times> string \<Rightarrow> row list \<times> results \<Rightarrow> row list \<times> results" where
  "run_cell sys file seq_length config st =
     (let time_ms = benchmarkCDSfold sys file (snd config);
          status = (if 0 < time_ms then ''OK'' else ''FAILED'');
          thr = (if 0 < time_ms then rate seq_length time_ms else NotAvailable);
          r = \<lparr>row_file = file, row_config = fst config, row_time_ms = time_ms,
               row_throughput = thr, row_status = status\<rparr>
      in (fst st @ [r],
          if 0 < time_ms then push_back (snd st) (fst config) time_ms else snd st))"

fun run_configs ::
  "env \<Rightarrow> string \<Rightarrow> int \<Rightarrow> (string \<times> string) list \<Rightarrow> row list \<times> results \<Rightarrow> row list \<times> results" where
  "run_configs sys file seq_length [] st = st"
| "run_configs sys file seq_length (config # configs) st =
     run_configs sys file seq_length configs (run_cell sys file seq_length config st)"

text \<open>
  \<^verbatim>\<open>size_t pos1 = file.find('_') + 1;
  size_t pos2 = file.find('.');
  int seq_length = stoi(file.substr(pos1, pos2 - pos1));\<close>
\<close>

definition seq_length_of :: "string \<Rightarrow> error + int" where
  "seq_length_of file =
     (let pos1 = size_add (find_char file (CHR ''_'')) 1;
          pos2 = find_char file (CHR ''.'')
      in case substr file pos1 (size_sub pos2 pos1) of
           Inl e \<Rightarrow> Inl e
         | Inr s \<Rightarrow> stoi s)"

fun run_files ::
  "env \<Rightarrow> string list \<Rightarrow> (string \<times> string) list \<Rightarrow> row list \<times> results \<Rightarrow> error + row list \<times> results" where
  "run_files sys [] configs st = Inr st"
| "run_files sys (file # files) configs st =
     (case seq_length_of file of
        Inl e \<Rightarrow> Inl e
      | Inr seq_length \<Rightarrow> run_files sys files configs (run_configs sys file seq_length configs st))"

definition test_files :: "string list" where
  "test_files = [''test_10.faa'', ''test_25.faa'', ''test_50.faa'', ''test_100.faa'',
                 ''test_200.faa'', ''test_500.faa'', ''test_1000.faa'']"

definition test_configs :: "(string \<times> string) list" where
  "test_configs = [(''default'', []), (''window_20'', ''-w 20''), (''window_50'', ''-w 50''),
                   (''exclude_codons'', ''-e GUA,GUC,CUG''), (''reverse_opt'', ''-r'')]"

definition runBenchmarkSuite :: "env \<Rightarrow> results \<Rightarrow> error + row list \<times> results" where
  "runBenchmarkSuite sys res = run_files sys test_files test_configs ([], res)"

section \<open>Aggregator (benchmark.cpp)\<close>

text \<open>
  \<^verbatim>\<open>for (const auto& config : results) {
    if (config.second.empty()) continue;
    double total_time = 0;
    double min_time = config.second[0];
    double max_time = config.second[0];
    for (double time : config.second) {
      total_time += time;
      min_time = min(min_time, time);
      max_time = max(max_time, time); }
    double avg_time = total_time / config.second.size();
    ... }\<close>
  \<^verbatim>\<open>std::min(a, b)\<close> is \<^verbatim>\<open>(b < a) ? b : a\<close> and \<^verbatim>\<open>std::max(a, b)\<close> is \<^verbatim>\<open>(a < b) ? b : a\<close>.
  The sum and the quotient are rounded; the size is converted to \<^verbatim>\<open>double\<close> first.
\<close>

definition std_min :: "rat \<Rightarrow> rat \<Rightarrow> rat" where
  "std_min a b = (if b < a then b else a)"

definition std_max :: "rat \<Rightarrow> rat \<Rightarrow> rat" where
  "std_max a b = (if a < b then b else a)"

fun stats_loop :: "rat list \<Rightarrow> rat \<times> rat \<times> rat \<Rightarrow> rat \<times> rat \<times> rat" where
  "stats_loop [] acc = acc"
| "stats_loop (t # ts) (total_time, mn, mx) =
     stats_loop ts (round_double (total_time + t), std_min mn t, std_max mx t)"

record config_stats =
  avg_time :: rat
  min_time :: rat
  max_time :: rat
  tests_run :: nat

definition summarize :: "rat list \<Rightarrow> config_stats option" where
  "summarize v =
     (case v of
        [] \<Rightarrow> None
      | first # rest \<Rightarrow>
          (case stats_loop v (0, first, first) of (total_time, mn, mx) \<Rightarrow>
             Some \<lparr>avg_time = round_double (total_time / round_double (of_nat (length v))),
                   min_time = mn, max_time = mx, tests_run = length v\<rparr>))"

definition analyzeResults :: "results \<Rightarrow> (string \<rightharpoonup> config_stats)" where
  "analyzeResults res label = (case res label of None \<Rightarrow> None | Some v \<Rightarrow> summarize v)"

text \<open>
  The running total is exact on a list of samples when no addition of the loop rounds.
\<close>

fun exact_total :: "rat \<Rightarrow> rat list \<Rightarrow> bool" where
  "exact_total t [] = True"
| "exact_total t (x # xs) = (round_double (t + x) = t + x \<and> exact_total (t + x) xs)"

section \<open>The harness (benchmark.cpp, main)\<close>

text \<open>
  \<^verbatim>\<open>main\<close> tests for the executable first and returns \<open>1\<close> after printing the
  diagnostic and the two static reports. Otherwise it creates the files, runs the
  matrix, prints the summary and returns \<open>0\<close>. An exception of \<^verbatim>\<open>stoi\<close> or \<^verbatim>\<open>substr\<close>
  is not caught anywhere, so it ends the process; it is the \<open>Inl\<close> result.
\<close>

record 'g report =
  exit_code :: int
  not_found_warning :: bool
  files_written :: "(string \<times> string) list"
  rows :: "row list"
  summary :: "string \<rightharpoonup> config_stats"
  generator :: 'g

definition main :: "('g \<Rightarrow> nat \<times> 'g) \<Rightarrow> 'g \<Rightarrow> env \<Rightarrow> error + 'g report" where
  "main draw seed sys =
     (if fst (sys ''test -f ./src/CDSfold'') \<noteq> 0 then
        Inr \<lparr>exit_code = 1, not_found_warning = True, files_written = [], rows = [],
             summary = Map.empty, generator = seed\<rparr>
      else
        (case createTestFiles draw seed of (files, rng) \<Rightarrow>
           (case runBenchmarkSuite sys Map.empty of
              Inl e \<Rightarrow> Inl e
            | Inr (rs, res) \<Rightarrow>
                Inr \<lparr>exit_code = 0, not_found_warning = False, files_written = files, rows = rs,
                     summary = analyzeResults res, generator = rng\<rparr>)))"

text \<open>
  The block of the summary that a run prints for a label, if it prints one.
\<close>

definition reported :: "error + 'g report \<Rightarrow> string \<Rightarrow> config_stats option" where
  "reported out label = (case out of Inl e \<Rightarrow> None | Inr r \<Rightarrow> summary r label)"

text \<open>
  Two runs in which the executable exists and only the first three files succeed, under
  the default configuration: they take \<open>1100\<close>, \<open>1200\<close> and \<open>1300\<close> microseconds in the
  first run, and \<open>1100\<close>, \<open>1300\<close> and \<open>1200\<close> microseconds in the second.
\<close>

definition first_run :: "(string \<times> int \<times> int) list" where
  "first_run = [(''test -f ./src/CDSfold'', 0, 0),
                (command_line ''test_10.faa'' [], 0, 1100),
                (command_line ''test_25.faa'' [], 0, 1200),
                (command_line ''test_50.faa'' [], 0, 1300)]"

definition second_run :: "(string \<times> int \<times> int) list" where
  "second_run = [(''test -f ./src/CDSfold'', 0, 0),
                 (command_line ''test_10.faa'' [], 0, 1100),
                 (command_line ''test_25.faa'' [], 0, 1300),
                 (command_line ''test_50.faa'' [], 0, 1200)]"

section \<open>The two matrix sizes agree up to the clamp\<close>

lemma half_step: "((k + 1) * k) div 2 = (k * (k - 1)) div 2 + (k::int)"
proof -
  have "(k + 1) * k = k * (k - 1) + k * 2" by (simp add: algebra_simps)
  then show ?thesis by simp
qed

lemma tri_Suc: "tri len (k + 1) = tri len k + (len - k)"
  using half_step [of k] by (simp add: tri_def algebra_simps)

lemma tri_0: "tri len 0 = 0"
  by (simp add: tri_def)

lemma tri_nonneg: "0 \<le> k \<Longrightarrow> k \<le> len + 1 \<Longrightarrow> 0 \<le> tri len k"
proof (induction k rule: int_ge_induct)
  case base
  show ?case by (simp add: tri_0)
next
  case (step i)
  then show ?case by (simp add: tri_Suc)
qed

lemma tri_mono: "j \<le> k \<Longrightarrow> 0 \<le> j \<Longrightarrow> k \<le> len + 1 \<Longrightarrow> tri len j \<le> tri len k"
proof (induction k rule: int_ge_induct)
  case base
  show ?case by simp
next
  case (step i)
  then show ?case by (simp add: tri_Suc)
qed

lemma tri_top: "tri len (len + 1) = (len * (len + 1)) div 2"
proof -
  have "even (len * (len + 1))" by simp
  then obtain h where h: "len * (len + 1) = 2 * h" by (elim evenE)
  have "(len + 1) * len = 2 * h" using h by (simp add: algebra_simps)
  moreover have "(len + 1) * (len + 1 - 1) = 2 * h" using h by (simp add: algebra_simps)
  ultimately show ?thesis using h by (simp add: tri_def)
qed

text \<open>
  The loop invariant: on entry to round \<open>i\<close> the variable \<^verbatim>\<open>size\<close> holds \<open>tri len (i - 1)\<close>.
  While \<open>w \<le> len + 1\<close> every term added is non-negative, so no partial sum exceeds the
  final one.
\<close>

lemma old_loop_tri:
  "1 \<le> i \<Longrightarrow> i \<le> w + 1 \<Longrightarrow> w \<le> len + 1 \<Longrightarrow> in_int len \<Longrightarrow> in_int (w + 1)
   \<Longrightarrow> in_int (tri len w) \<Longrightarrow> old_loop len w i (tri len (i - 1)) = Some (tri len w)"
proof (induction "nat (w + 1 - i)" arbitrary: i)
  case 0
  then have "i = w + 1" by simp
  then show ?case by simp
next
  case (Suc n)
  then have iw: "i \<le> w" by linarith
  have a: "in_int (i - 1)"
    using Suc.prems iw by (simp add: in_int_def INT_MIN_def INT_MAX_def)
  have b: "in_int (len - (i - 1))"
    using Suc.prems iw by (simp add: in_int_def INT_MIN_def INT_MAX_def)
  have t: "tri len (i - 1) + (len - (i - 1)) = tri len i"
    using tri_Suc [of len "i - 1"] by simp
  have "0 \<le> tri len i" using tri_nonneg [of i len] Suc.prems iw by simp
  moreover have "tri len i \<le> tri len w" using tri_mono [of i w len] Suc.prems iw by simp
  ultimately have c: "in_int (tri len i)"
    using Suc.prems by (simp add: in_int_def INT_MIN_def INT_MAX_def)
  have d: "in_int (i + 1)"
    using Suc.prems iw by (simp add: in_int_def INT_MIN_def INT_MAX_def)
  have n: "n = nat (w + 1 - (i + 1))" using Suc.hyps(2) by simp
  have "old_loop len w (i + 1) (tri len ((i + 1) - 1)) = Some (tri len w)"
    using Suc.hyps(1) [OF n] Suc.prems iw by simp
  then show ?case using iw a b c d t
    by (subst old_loop.simps) (simp add: int_sub_def int_add_def checked_def)
qed

lemma int_div_2_nonneg: "0 \<le> c \<Longrightarrow> int_div c 2 = checked (c div 2)"
  by (cases "c = 0") (simp_all add: int_div_def)

lemma new_small:
  assumes "0 < w" "w \<le> len" "new_getMatrixSize len w \<noteq> None"
  shows "new_getMatrixSize len w = Some (tri len w) \<and> in_int (tri len w) \<and> in_int (w * len)"
proof -
  have c: "0 \<le> w * (w - 1)" using assms(1) by simp
  show ?thesis using assms c
    by (auto simp: new_getMatrixSize_def int_mul_def int_sub_def int_div_2_nonneg checked_def tri_def
        split: if_splits)
qed

lemma new_large:
  assumes "0 < len" "len < w" "new_getMatrixSize len w \<noteq> None"
  shows "new_getMatrixSize len w = Some ((len * (len + 1)) div 2) \<and> in_int (len * (len + 1))"
proof -
  have c: "0 \<le> len * (len + 1)" using assms(1) by simp
  show ?thesis using assms c
    by (auto simp: new_getMatrixSize_def int_mul_def int_add_def int_div_2_nonneg checked_def
        split: if_splits)
qed

text \<open>
  Claim C1, as stated: for every positive \<open>len\<close> and every positive \<open>w\<close> the loop and the
  formula return the same value. It fails beyond the clamp of the formula: for
  \<open>len = 1\<close> and \<open>w = 3\<close> the loop adds \<open>1 + 0 + (- 1)\<close> and returns \<open>0\<close>, while the
  formula takes its second branch and returns \<open>1 * 2 / 2 = 1\<close>.
\<close>

theorem getMatrixSize_differ_counterexample:
  "old_getMatrixSize 1 3 = Some 0 \<and> new_getMatrixSize 1 3 = Some 1"
  by (simp add: old_getMatrixSize_def new_getMatrixSize_def int_sub_def int_add_def int_mul_def
      int_div_def checked_def in_int_def INT_MIN_def INT_MAX_def)

text \<open>
  Claim C1, amended: for every positive \<open>len\<close> and every positive \<open>w \<le> len + 1\<close> for which
  the formula is evaluated without signed overflow, the loop returns the same value as the
  formula.
\<close>

theorem getMatrixSize_equiv:
  assumes "in_int len" "in_int w" "0 < len" "0 < w" "w \<le> len + 1"
    and "new_getMatrixSize len w \<noteq> None"
  shows "old_getMatrixSize len w = new_getMatrixSize len w"
proof (cases "w \<le> len")
  case True
  have n: "new_getMatrixSize len w = Some (tri len w)" "in_int (tri len w)" "in_int (w * len)"
    using new_small [OF assms(4) True assms(6)] by simp_all
  have "w + 1 \<le> INT_MAX"
  proof (cases "w = 1")
    case True
    then show ?thesis by (simp add: INT_MAX_def)
  next
    case False
    then have "2 \<le> len" using assms(4) True by simp
    then have "w * 2 \<le> w * len" using assms(4) by (intro mult_left_mono) simp_all
    moreover define p where "p = w * len"
    ultimately have "w * 2 \<le> p" "p \<le> INT_MAX" using n(3) by (simp_all add: in_int_def)
    then show ?thesis using assms(4) by linarith
  qed
  then have w1: "in_int (w + 1)" using assms(4) by (simp add: in_int_def INT_MIN_def)
  have "old_loop len w 1 (tri len (1 - 1)) = Some (tri len w)"
    using assms w1 n(2) by (intro old_loop_tri) simp_all
  then show ?thesis using n(1) by (simp add: old_getMatrixSize_def tri_0)
next
  case False
  then have w: "w = len + 1" using assms(5) by simp
  have lw: "len < w" using w by simp
  have n: "new_getMatrixSize len w = Some ((len * (len + 1)) div 2)" "in_int (len * (len + 1))"
    using new_large [OF assms(3) lw assms(6)] by simp_all
  have t: "tri len w = (len * (len + 1)) div 2" using w tri_top by simp
  have "0 \<le> len * (len + 1)" using assms(3) by simp
  then have "0 \<le> (len * (len + 1)) div 2" "(len * (len + 1)) div 2 \<le> len * (len + 1)"
    by (simp_all add: pos_imp_zdiv_nonneg_iff)
  then have it: "in_int (tri len w)"
    using n(2) t unfolding in_int_def INT_MIN_def by linarith
  have "w + 1 \<le> INT_MAX"
  proof (cases "len = 1")
    case True
    then show ?thesis using w by (simp add: INT_MAX_def)
  next
    case False
    then have "2 \<le> len" using assms(3) by simp
    then have "2 * (len + 1) \<le> len * (len + 1)"
      using assms(3) by (intro mult_right_mono) simp_all
    moreover define p where "p = len * (len + 1)"
    ultimately have "2 * (len + 1) \<le> p" "p \<le> INT_MAX" using n(2) by (simp_all add: in_int_def)
    then have "len + 2 \<le> INT_MAX" using assms(3) by presburger
    then show ?thesis using w by simp
  qed
  then have w1: "in_int (w + 1)" using assms(4) by (simp add: in_int_def INT_MIN_def)
  have "old_loop len w 1 (tri len (1 - 1)) = Some (tri len w)"
    using assms w1 it by (intro old_loop_tri) simp_all
  then show ?thesis using n(1) t by (simp add: old_getMatrixSize_def tri_0)
qed

theorem getMatrixSize_equiv_witness:
  "in_int 100 \<and> in_int 50 \<and> (0::int) < 100 \<and> (0::int) < 50 \<and> (50::int) \<le> 100 + 1
   \<and> new_getMatrixSize 100 50 = Some 3775 \<and> old_getMatrixSize 100 50 = Some 3775"
proof -
  have r: "in_int 100" "in_int 50" by (simp_all add: in_int_def INT_MIN_def INT_MAX_def)
  have n: "new_getMatrixSize 100 50 = Some 3775"
    by (simp add: new_getMatrixSize_def int_mul_def int_sub_def int_div_def checked_def
        in_int_def INT_MIN_def INT_MAX_def)
  then have "new_getMatrixSize 100 50 \<noteq> None" by simp
  then show ?thesis using r n getMatrixSize_equiv [of 100 50] by simp
qed

text \<open>
  The overflow hypothesis is needed: for \<open>len = 60000\<close> and \<open>w = 50000\<close> the loop stays
  within the range of \<^verbatim>\<open>int\<close>, but the product \<open>w * len\<close> of the formula does not.
\<close>

lemma getMatrixSize_overflow:
  "old_getMatrixSize 60000 50000 = Some 1750025000 \<and> new_getMatrixSize 60000 50000 = None"
proof -
  have "old_loop 60000 50000 1 (tri 60000 (1 - 1)) = Some (tri 60000 50000)"
    by (intro old_loop_tri) (simp_all add: in_int_def INT_MIN_def INT_MAX_def tri_def)
  then have "old_getMatrixSize 60000 50000 = Some 1750025000"
    by (simp add: old_getMatrixSize_def tri_def)
  moreover have "new_getMatrixSize 60000 50000 = None"
    by (simp add: new_getMatrixSize_def int_mul_def int_sub_def int_div_def checked_def
        in_int_def INT_MIN_def INT_MAX_def)
  ultimately show ?thesis by simp
qed


section \<open>Properties of the rounding\<close>

subsection \<open>Rounding to the nearest integer\<close>

lemma rne_of_int: "rne (of_int k) = k"
  by (simp add: rne_def)

lemma rne_cases: "rne x = \<lfloor>x\<rfloor> \<or> rne x = \<lfloor>x\<rfloor> + 1"
  by (simp add: rne_def Let_def)

lemma rne_floor_le: "\<lfloor>x\<rfloor> \<le> rne x"
  using rne_cases [of x] by auto

lemma rne_le_ceiling: "rne x \<le> \<lceil>x\<rceil>"
proof (cases "x = of_int \<lfloor>x\<rfloor>")
  case True
  then have "rne x = \<lfloor>x\<rfloor>" using rne_of_int [of "\<lfloor>x\<rfloor>"] by simp
  then show ?thesis by (simp add: floor_le_ceiling)
next
  case False
  then have "\<lceil>x\<rceil> = \<lfloor>x\<rfloor> + 1" by (metis ceiling_altdef floor_of_int of_int_floor_cancel)
  then show ?thesis using rne_cases [of x] by auto
qed

lemma rne_mono: assumes "x \<le> y" shows "rne x \<le> rne y"
proof (cases "\<lfloor>x\<rfloor> = \<lfloor>y\<rfloor>")
  case True
  have "x - of_int \<lfloor>x\<rfloor> \<le> y - of_int \<lfloor>y\<rfloor>" using assms True by simp
  then show ?thesis using True by (auto simp: rne_def Let_def)
next
  case False
  have "\<lfloor>x\<rfloor> \<le> \<lfloor>y\<rfloor>" using assms by (rule floor_mono)
  then have "\<lfloor>x\<rfloor> + 1 \<le> \<lfloor>y\<rfloor>" using False by simp
  then show ?thesis using rne_cases [of x] rne_floor_le [of y] by auto
qed

lemma rne_ge_int: "of_int k \<le> x \<Longrightarrow> k \<le> rne x"
  using rne_mono [of "of_int k" x] by (simp add: rne_of_int)

lemma rne_le_int: "x \<le> of_int k \<Longrightarrow> rne x \<le> k"
  using rne_mono [of x "of_int k"] by (simp add: rne_of_int)

subsection \<open>The binary exponent\<close>

lemma powi_nat: "0 \<le> e \<Longrightarrow> (2::rat) powi e = 2 ^ nat e"
  by (simp add: power_int_def)

lemma ilog2_bounds:
  assumes "0 < x"
  shows "2 powi (ilog2 x) \<le> x \<and> x < 2 powi (ilog2 x + 1)"
proof -
  obtain p q where pq: "quotient_of x = (p, q)" by (cases "quotient_of x")
  have q: "0 < q" using pq quotient_of_denom_pos by blast
  have x: "x = of_int p / of_int q" using pq by (rule quotient_of_div)
  have p: "0 < p" using assms q x by (simp add: zero_less_divide_iff)
  define bp where "bp = bitlen p"
  define bq where "bq = bitlen q"
  have bp1: "1 \<le> bp" using p bitlen_eq_zero_iff [of p] bitlen_nonneg [of p] unfolding bp_def by linarith
  have bq1: "1 \<le> bq" using q bitlen_eq_zero_iff [of q] bitlen_nonneg [of q] unfolding bq_def by linarith
  have "2 ^ nat (bp - 1) \<le> p" "p < 2 ^ nat bp" using bitlen_bounds [OF p] unfolding bp_def by simp_all
  then have "(of_int (2 ^ nat (bp - 1)) :: rat) \<le> of_int p" "(of_int p :: rat) < of_int (2 ^ nat bp)"
    by (simp_all only: of_int_le_iff of_int_less_iff)
  then have P: "(2::rat) powi (bp - 1) \<le> of_int p" "(of_int p :: rat) < 2 powi bp"
    using bp1 by (simp_all add: powi_nat)
  have "2 ^ nat (bq - 1) \<le> q" "q < 2 ^ nat bq" using bitlen_bounds [OF q] unfolding bq_def by simp_all
  then have "(of_int (2 ^ nat (bq - 1)) :: rat) \<le> of_int q" "(of_int q :: rat) < of_int (2 ^ nat bq)"
    by (simp_all only: of_int_le_iff of_int_less_iff)
  then have Q: "(2::rat) powi (bq - 1) \<le> of_int q" "(of_int q :: rat) < 2 powi bq"
    using bq1 by (simp_all add: powi_nat)
  have qpos: "(0::rat) < of_int q" using q by simp
  have up: "x < 2 powi (bp - bq + 1)"
  proof -
    have "of_int p < (2::rat) powi (bp - bq + 1) * 2 powi (bq - 1)"
      using P(2) by (simp add: power_int_add [symmetric])
    also have "\<dots> \<le> 2 powi (bp - bq + 1) * of_int q"
      using Q(1) by (intro mult_left_mono) simp_all
    finally show ?thesis using qpos by (simp add: x pos_divide_less_eq)
  qed
  have lo: "2 powi (bp - bq - 1) \<le> x"
  proof -
    have "(2::rat) powi (bp - bq - 1) * of_int q \<le> 2 powi (bp - bq - 1) * 2 powi bq"
      using Q(2) by (intro mult_left_mono) simp_all
    also have "\<dots> = 2 powi (bp - 1)" by (simp add: power_int_add [symmetric])
    also have "\<dots> \<le> of_int p" by (rule P(1))
    finally show ?thesis using qpos by (simp add: x pos_le_divide_eq)
  qed
  show ?thesis
  proof (cases "2 powi (bp - bq) \<le> x")
    case True
    then have "ilog2 x = bp - bq" using pq by (simp add: ilog2_def bp_def bq_def)
    then show ?thesis using True up by simp
  next
    case False
    then have "ilog2 x = bp - bq - 1" using pq by (simp add: ilog2_def bp_def bq_def)
    then show ?thesis using False lo by simp
  qed
qed

lemma powi_mono: "a \<le> b \<Longrightarrow> (2::rat) powi a \<le> 2 powi b"
  by (rule power_int_increasing) simp_all

lemma powi_strict_mono: "a < b \<Longrightarrow> (2::rat) powi a < 2 powi b"
  by (rule power_int_strict_increasing) simp_all

lemma powi_le_iff: "(2::rat) powi a \<le> 2 powi b \<longleftrightarrow> a \<le> b"
  using powi_mono [of a b] powi_strict_mono [of b a] by (auto simp: not_le [symmetric])

lemma powi_less_iff: "(2::rat) powi a < 2 powi b \<longleftrightarrow> a < b"
  using powi_strict_mono [of a b] powi_mono [of b a] by (auto simp: not_less [symmetric])

lemma ilog2_ge: assumes "0 < x" "2 powi k \<le> x" shows "k \<le> ilog2 x"
proof -
  have "(2::rat) powi k < 2 powi (ilog2 x + 1)" using assms ilog2_bounds [OF assms(1)] by linarith
  then show ?thesis by (simp add: powi_less_iff)
qed

lemma ilog2_le: assumes "0 < x" "x < 2 powi (k + 1)" shows "ilog2 x \<le> k"
proof -
  have "(2::rat) powi (ilog2 x) < 2 powi (k + 1)" using assms ilog2_bounds [OF assms(1)] by linarith
  then show ?thesis by (simp add: powi_less_iff)
qed

lemma ilog2_mono: assumes "0 < x" "x \<le> y" shows "ilog2 x \<le> ilog2 y"
proof -
  have "0 < y" using assms by simp
  moreover have "2 powi (ilog2 x) \<le> y" using assms ilog2_bounds [OF assms(1)] by linarith
  ultimately show ?thesis by (rule ilog2_ge)
qed

subsection \<open>Rounding to double precision\<close>


lemma round_double_pos:
  "0 < x \<Longrightarrow> round_double x = of_int (rne (x / 2 powi quantum x)) * 2 powi quantum x"
  by (simp add: round_double_def Let_def)

lemma round_double_0: "round_double 0 = 0"
  by (simp add: round_double_def)

lemma round_double_minus: "round_double (- x) = - round_double x"
  by (simp add: round_double_def Let_def)

lemma round_double_nonneg: assumes "0 \<le> x" shows "0 \<le> round_double x"
proof (cases "x = 0")
  case True then show ?thesis by (simp add: round_double_0)
next
  case False
  then have x: "0 < x" using assms by simp
  have "(of_int 0 :: rat) \<le> x / 2 powi quantum x" using x by simp
  then have "0 \<le> rne (x / 2 powi quantum x)" by (rule rne_ge_int)
  then show ?thesis using x by (simp add: round_double_pos)
qed

lemma round_double_lower:
  assumes "0 < x" "- 1022 \<le> ilog2 x"
  shows "2 powi (ilog2 x) \<le> round_double x"
proof -
  have q: "quantum x = ilog2 x - 52" using assms(2) by (simp add: quantum_def)
  have "(2::rat) powi (ilog2 x) = 2 powi 52 * 2 powi quantum x"
    by (simp add: q power_int_add [symmetric] del: power_int_numeral)
  moreover have "2 powi (ilog2 x) \<le> x" using ilog2_bounds [OF assms(1)] by simp
  ultimately have "(2::rat) powi 52 \<le> x / 2 powi quantum x"
    by (simp add: pos_le_divide_eq)
  then have "(of_int (2 ^ 52) :: rat) \<le> x / 2 powi quantum x" by simp
  then have "2 ^ 52 \<le> rne (x / 2 powi quantum x)" by (rule rne_ge_int)
  then have "(of_int (2 ^ 52) :: rat) \<le> of_int (rne (x / 2 powi quantum x))"
    by (simp only: of_int_le_iff)
  then have "(2::rat) powi 52 * 2 powi quantum x \<le> of_int (rne (x / 2 powi quantum x)) * 2 powi quantum x"
    by (intro mult_right_mono) simp_all
  then show ?thesis using assms(1) by (simp add: round_double_pos q power_int_add [symmetric] del: power_int_numeral)
qed

lemma round_double_upper:
  assumes "0 < x"
  shows "round_double x \<le> 2 powi (max (ilog2 x + 1) (- 1074))"
proof -
  define m where "m = max (ilog2 x + 1) (- 1074)"
  have mq: "quantum x \<le> m" by (simp add: m_def quantum_def)
  have split: "(2::rat) powi m = 2 powi (m - quantum x) * 2 powi quantum x"
    by (simp add: power_int_add [symmetric])
  have nat: "(2::rat) powi (m - quantum x) = of_int (2 ^ nat (m - quantum x))"
    using mq by (simp add: powi_nat)
  have "x < 2 powi (ilog2 x + 1)" using ilog2_bounds [OF assms] by simp
  also have "\<dots> \<le> 2 powi m" by (rule powi_mono) (simp add: m_def)
  finally have "x / 2 powi quantum x \<le> 2 powi (m - quantum x)"
    by (simp add: split pos_divide_le_eq)
  then have "rne (x / 2 powi quantum x) \<le> 2 ^ nat (m - quantum x)"
    unfolding nat by (rule rne_le_int)
  then have "(of_int (rne (x / 2 powi quantum x)) :: rat) \<le> of_int (2 ^ nat (m - quantum x))"
    by (simp only: of_int_le_iff)
  then have "of_int (rne (x / 2 powi quantum x)) * (2::rat) powi quantum x
             \<le> 2 powi (m - quantum x) * 2 powi quantum x"
    unfolding nat by (intro mult_right_mono) simp_all
  then show ?thesis using assms unfolding m_def [symmetric] by (simp add: round_double_pos split [symmetric])
qed

lemma quantum_mono: "0 < x \<Longrightarrow> x \<le> y \<Longrightarrow> quantum x \<le> quantum y"
  using ilog2_mono [of x y] by (simp add: quantum_def)

lemma round_double_mono_pos:
  assumes "0 < x" "x \<le> y"
  shows "round_double x \<le> round_double y"
proof (cases "quantum x = quantum y")
  case True
  have y: "0 < y" using assms by simp
  have "x / 2 powi quantum y \<le> y / 2 powi quantum y" using assms(2) by (simp add: divide_right_mono)
  then have "rne (x / 2 powi quantum y) \<le> rne (y / 2 powi quantum y)" by (rule rne_mono)
  then have "(of_int (rne (x / 2 powi quantum y)) :: rat) \<le> of_int (rne (y / 2 powi quantum y))"
    by (simp only: of_int_le_iff)
  then have "of_int (rne (x / 2 powi quantum y)) * (2::rat) powi quantum y
             \<le> of_int (rne (y / 2 powi quantum y)) * 2 powi quantum y"
    by (intro mult_right_mono) simp_all
  then show ?thesis using assms(1) y True by (simp add: round_double_pos)
next
  case False
  have y: "0 < y" using assms by simp
  have lt: "quantum x < quantum y" using quantum_mono [OF assms] False by simp
  have "- 1074 \<le> quantum x" by (simp add: quantum_def)
  then have "- 1074 < quantum y" using lt by simp
  then have ey: "quantum y = ilog2 y - 52" "- 1022 \<le> ilog2 y" by (auto simp: quantum_def max_def split: if_splits)
  have "ilog2 x - 52 \<le> quantum x" by (simp add: quantum_def)
  then have "ilog2 x + 1 \<le> ilog2 y" using lt ey(1) by simp
  moreover have "- 1074 \<le> ilog2 y" using ey(2) by simp
  ultimately have "max (ilog2 x + 1) (- 1074) \<le> ilog2 y" by simp
  then have "(2::rat) powi (max (ilog2 x + 1) (- 1074)) \<le> 2 powi (ilog2 y)" by (rule powi_mono)
  then show ?thesis
    using round_double_upper [OF assms(1)] round_double_lower [OF y ey(2)] by linarith
qed

lemma round_double_mono:
  assumes "x \<le> y"
  shows "round_double x \<le> round_double y"
proof -
  consider "0 < x" | "x \<le> 0" "0 \<le> y" | "y < 0" by linarith
  then show ?thesis
  proof cases
    case 1 then show ?thesis using assms by (rule round_double_mono_pos)
  next
    case 2
    have "round_double x \<le> 0" using round_double_nonneg [of "- x"] 2(1) by (simp add: round_double_minus)
    then show ?thesis using round_double_nonneg [OF 2(2)] by linarith
  next
    case 3
    have "round_double (- y) \<le> round_double (- x)" using 3 assms by (intro round_double_mono_pos) simp_all
    then show ?thesis by (simp add: round_double_minus)
  qed
qed

lemma round_double_of_nat:
  assumes "n < 2 ^ 53"
  shows "round_double (of_nat n) = of_nat n"
proof (cases "n = 0")
  case True then show ?thesis by (simp add: round_double_0)
next
  case False
  define x :: rat where "x = of_nat n"
  have x: "0 < x" using False by (simp add: x_def)
  have "(2::rat) powi 0 \<le> x" using False by (simp add: x_def)
  then have e0: "0 \<le> ilog2 x" using x by (intro ilog2_ge)
  have "x < of_nat (2 ^ 53)" unfolding x_def using assms by (simp only: of_nat_less_iff)
  then have "x < 2 powi (52 + 1)" by simp
  then have e52: "ilog2 x \<le> 52" using x by (intro ilog2_le)
  have q: "quantum x = ilog2 x - 52" using e0 by (simp add: quantum_def)
  have "x / 2 powi quantum x = x * 2 powi (52 - ilog2 x)"
    by (simp add: q power_int_diff)
  also have "\<dots> = of_int (int n * 2 ^ nat (52 - ilog2 x))"
    using e52 by (simp add: x_def powi_nat)
  finally have "rne (x / 2 powi quantum x) = int n * 2 ^ nat (52 - ilog2 x)"
    by (simp only: rne_of_int)
  then have "round_double x = x * (2 powi (52 - ilog2 x) * 2 powi quantum x)"
    using x e52 by (simp add: round_double_pos x_def powi_nat)
  also have "2 powi (52 - ilog2 x) * (2::rat) powi quantum x = 1"
    by (simp add: q power_int_add [symmetric])
  finally show ?thesis by (simp add: x_def)
qed

lemma round_double_of_int:
  "\<bar>k\<bar> < 2 ^ 53 \<Longrightarrow> round_double (of_int k) = of_int k"
proof (cases "0 \<le> k")
  case True
  assume "\<bar>k\<bar> < 2 ^ 53"
  then have "nat k < 2 ^ 53" using True by (simp add: nat_less_iff)
  then show ?thesis using round_double_of_nat [of "nat k"] True by simp
next
  case False
  assume "\<bar>k\<bar> < 2 ^ 53"
  then have "nat (- k) < 2 ^ 53" using False by (simp add: nat_less_iff)
  then have "round_double (of_int (- k)) = of_int (- k)" using round_double_of_nat [of "nat (- k)"] False by simp
  then show ?thesis by (simp add: round_double_minus)
qed

lemma round_double_pos_strict: assumes "2 powi (- 10) \<le> x" shows "0 < round_double x"
proof -
  have x: "0 < x" using assms zero_less_power_int [of "2::rat" "- 10"] by linarith
  then have e: "- 10 \<le> ilog2 x" using assms by (intro ilog2_ge)
  have "(0::rat) < 2 powi (ilog2 x)" by simp
  also have "\<dots> \<le> round_double x" using x e by (intro round_double_lower) simp_all
  finally show ?thesis .
qed

lemma elapsed_ms_ge: assumes "0 < ticks" shows "2 powi (- 10) \<le> elapsed_ms ticks"
proof -
  define a where "a = round_double (of_int ticks)"
  have t: "(0::rat) < of_int ticks" "(2::rat) powi 0 \<le> of_int ticks" using assms by simp_all
  then have "0 \<le> ilog2 (of_int ticks)" by (intro ilog2_ge)
  moreover have "(2::rat) powi 0 \<le> 2 powi (ilog2 (of_int ticks))" using calculation by (intro powi_mono)
  ultimately have "2 powi 0 \<le> a" unfolding a_def using round_double_lower [of "of_int ticks"] t(1) by linarith
  then have a1: "1 \<le> a" by simp
  have d: "0 < a / 1000" using a1 by simp
  have "(2::rat) powi (- 10) \<le> 1 / 1000" by (simp add: power_int_minus_divide)
  also have "\<dots> \<le> a / 1000" using a1 by simp
  finally have le: "2 powi (- 10) \<le> a / 1000" .
  then have e: "- 10 \<le> ilog2 (a / 1000)" using d by (intro ilog2_ge)
  have "(2::rat) powi (- 10) \<le> 2 powi (ilog2 (a / 1000))" using e by (rule powi_mono)
  also have "\<dots> \<le> round_double (a / 1000)" using d e by (intro round_double_lower) simp_all
  finally show ?thesis by (simp add: elapsed_ms_def a_def)
qed

lemma elapsed_ms_pos: "0 < ticks \<Longrightarrow> 0 < elapsed_ms ticks"
  using elapsed_ms_ge [of ticks] zero_less_power_int [of "2::rat" "- 10"] by linarith

lemma elapsed_ms_0: "elapsed_ms 0 = 0"
  by (simp add: elapsed_ms_def round_double_0)

lemma elapsed_ms_minus: "elapsed_ms (- ticks) = - elapsed_ms ticks"
  by (simp add: elapsed_ms_def round_double_minus)

lemma elapsed_ms_pos_iff: "0 < elapsed_ms ticks \<longleftrightarrow> 0 < ticks"
proof (cases "0 < ticks")
  case True then show ?thesis by (simp add: elapsed_ms_pos)
next
  case False
  then have "ticks = 0 \<or> 0 < - ticks" by linarith
  then have "elapsed_ms ticks \<le> 0"
    using elapsed_ms_pos [of "- ticks"] by (auto simp: elapsed_ms_0 elapsed_ms_minus)
  then show ?thesis using False by simp
qed

text \<open>
  A rounded value is a double: rounding it again changes nothing. In particular every
  time read from the clock is a double.
\<close>

lemma ilog2_unique: "0 < x \<Longrightarrow> 2 powi k \<le> x \<Longrightarrow> x < 2 powi (k + 1) \<Longrightarrow> ilog2 x = k"
  using ilog2_ge [of x k] ilog2_le [of x k] by simp

lemma round_double_multiple:
  assumes "0 < x" "x = of_int m * 2 powi E" "quantum x \<le> E"
  shows "round_double x = x"
proof -
  define q where "q = quantum x"
  have "x / 2 powi q = of_int m * (2 powi E / 2 powi q)" by (simp add: assms(2))
  also have "2 powi E / (2::rat) powi q = 2 powi (E - q)" by (simp add: power_int_diff)
  also have "\<dots> = of_int (2 ^ nat (E - q))" using assms(3) by (simp add: q_def powi_nat)
  finally have "x / 2 powi q = of_int (m * 2 ^ nat (E - q))" by simp
  then have "rne (x / 2 powi q) = m * 2 ^ nat (E - q)" by (simp only: rne_of_int)
  then have "round_double x = of_int m * (of_int (2 ^ nat (E - q)) * 2 powi q)"
    using assms(1) by (simp add: round_double_pos q_def)
  also have "(of_int (2 ^ nat (E - q)) :: rat) = 2 powi (E - q)"
    using assms(3) by (simp add: q_def powi_nat)
  also have "2 powi (E - q) * (2::rat) powi q = 2 powi E" by (simp add: power_int_add [symmetric])
  finally show ?thesis by (simp add: assms(2))
qed

lemma round_double_idem_pos:
  assumes "0 < x"
  shows "round_double (round_double x) = round_double x"
proof -
  define E where "E = quantum x"
  define m where "m = rne (x / 2 powi E)"
  define y where "y = round_double x"
  have y: "y = of_int m * 2 powi E" using assms by (simp add: y_def m_def E_def round_double_pos)
  have y0: "0 \<le> y" unfolding y_def using assms by (intro round_double_nonneg) simp
  have E1: "ilog2 x + 1 \<le> E + 53" "- 1074 \<le> E + 53" by (simp_all add: E_def quantum_def)
  have "y \<le> 2 powi (max (ilog2 x + 1) (- 1074))" unfolding y_def using assms by (rule round_double_upper)
  also have "\<dots> \<le> 2 powi (E + 53)" using E1 by (intro powi_mono) simp
  finally have up: "y \<le> 2 powi (E + 53)" .
  consider "y = 0" | "0 < y" "y < 2 powi (E + 53)" | "y = 2 powi (E + 53)" using y0 up by linarith
  then have "round_double y = y"
  proof cases
    case 1
    then show ?thesis by (simp add: round_double_0)
  next
    case 2
    have "y < 2 powi ((E + 52) + 1)" using 2(2) by (simp add: add.commute add.left_commute)
    then have "ilog2 y \<le> E + 52" using 2(1) by (intro ilog2_le)
    moreover have "- 1074 \<le> E" by (simp add: E_def quantum_def)
    ultimately have "quantum y \<le> E" by (simp add: quantum_def)
    then show ?thesis using 2(1) y by (intro round_double_multiple [of y m E])
  next
    case 3
    have pos: "0 < y" by (simp add: 3)
    have "(2::rat) powi (E + 53) < 2 powi (E + 53 + 1)" by (rule powi_strict_mono) simp
    then have "ilog2 y = E + 53" using pos 3 by (intro ilog2_unique) simp_all
    moreover have "- 1074 \<le> E" by (simp add: E_def quantum_def)
    ultimately have "quantum y \<le> E + 53" by (simp add: quantum_def)
    moreover have "y = of_int 1 * 2 powi (E + 53)" by (simp add: 3)
    ultimately show ?thesis using pos by (intro round_double_multiple [of y 1 "E + 53"])
  qed
  then show ?thesis by (simp add: y_def)
qed

lemma is_double_round_double: "is_double (round_double x)"
proof -
  consider "x = 0" | "0 < x" | "0 < - x" by linarith
  then show ?thesis
  proof cases
    case 1
    then show ?thesis by (simp add: is_double_def round_double_0)
  next
    case 2
    then show ?thesis unfolding is_double_def by (rule round_double_idem_pos)
  next
    case 3
    then have "round_double (round_double (- x)) = round_double (- x)" by (rule round_double_idem_pos)
    then show ?thesis by (simp add: is_double_def round_double_minus)
  qed
qed

lemma is_double_elapsed_ms: "is_double (elapsed_ms ticks)"
  by (simp add: elapsed_ms_def is_double_round_double)

section \<open>The improvement percentage\<close>

lemma dbl_of_0: "dbl_of 0 = Finite 0"
  by (simp add: dbl_of_def round_double_0)

lemma dbl_of_neg:
  assumes "2 powi (- 10) \<le> x"
  shows "dbl_of (- x) = NegInf \<or> (\<exists>r<0. dbl_of (- x) = Finite r)"
proof -
  have "round_double (- x) < 0"
    using round_double_pos_strict [OF assms] by (simp add: round_double_minus)
  then show ?thesis by (auto simp: dbl_of_def Let_def)
qed

lemma improvement_zero_pos:
  assumes "0 < ticks"
  shows "improvement 0 (elapsed_ms ticks) = NegInf"
  using dbl_of_neg [OF elapsed_ms_ge [OF assms]] by (auto simp: improvement_def)

lemma improvement_zero_neg:
  assumes "ticks < 0"
  shows "improvement 0 (elapsed_ms ticks) = PosInf"
proof -
  have "0 < - ticks" using assms by simp
  then have "2 powi (- 10) \<le> elapsed_ms (- ticks)" by (rule elapsed_ms_ge)
  then have "0 < round_double (- elapsed_ms ticks)"
    unfolding elapsed_ms_minus by (rule round_double_pos_strict)
  then have "dbl_of (- elapsed_ms ticks) = PosInf \<or> (\<exists>r>0. dbl_of (- elapsed_ms ticks) = Finite r)"
    by (auto simp: dbl_of_def Let_def)
  then show ?thesis by (auto simp: improvement_def)
qed

text \<open>
  Claim C4: when the baseline measurement is \<open>0\<close> ms, the improvement is not a number
  that could be mistaken for a measured percentage. The division by zero gives NaN when
  the candidate took \<open>0\<close> ms as well, and an infinity otherwise; for every candidate
  time the result differs from every finite value, in particular from \<open>0\<close>.
\<close>

theorem improvement_zero_baseline:
  "improvement (elapsed_ms 0) (elapsed_ms ticks) =
     (if ticks = 0 then NaN else if 0 < ticks then NegInf else PosInf)
   \<and> (\<forall>p. improvement (elapsed_ms 0) (elapsed_ms ticks) \<noteq> Finite p)"
proof -
  consider "ticks = 0" | "0 < ticks" | "ticks < 0" by linarith
  then show ?thesis
  proof cases
    case 1
    then show ?thesis by (simp add: elapsed_ms_0 improvement_def dbl_of_0)
  next
    case 2
    then show ?thesis by (simp add: elapsed_ms_0 improvement_zero_pos)
  next
    case 3
    then show ?thesis by (simp add: elapsed_ms_0 improvement_zero_neg)
  qed
qed



section \<open>Classification of a cell\<close>

text \<open>
  Claim C3, as stated: the outcome of a cell is decided by the exit status alone. It fails
  for a run that exits with status \<open>0\<close> and a measured duration of \<open>0\<close> microseconds: the
  row says \<^verbatim>\<open>FAILED\<close>, the throughput is \<^verbatim>\<open>N/A\<close> and the sample is not recorded.
\<close>

theorem zero_duration_counterexample:
  "run_cell (uniform_env 0 0) ''test_10.faa'' 10 (''default'', []) ([], Map.empty)
   = ([\<lparr>row_file = ''test_10.faa'', row_config = ''default'', row_time_ms = 0,
         row_throughput = NotAvailable, row_status = ''FAILED''\<rparr>], Map.empty)"
  by (simp add: run_cell_def benchmarkCDSfold_def uniform_env_def elapsed_ms_0)

text \<open>
  Claim C3, amended: a cell is a success exactly when the exit status is \<open>0\<close> and the
  measured duration is positive; then its row carries the measured time and the time is
  appended to the samples of its configuration. Every other cell is reported as
  \<^verbatim>\<open>FAILED\<close> without a throughput, and \<^verbatim>\<open>results\<close> is left as it was; in particular no
  run with a non-zero exit status is ever recorded.
\<close>

theorem run_cell_classification:
  assumes "sys (command_line file (snd config)) = (result, ticks)"
  shows "run_cell sys file seq_length config st =
    (if result = 0 \<and> 0 < ticks
     then (fst st @ [\<lparr>row_file = file, row_config = fst config, row_time_ms = elapsed_ms ticks,
                       row_throughput = rate seq_length (elapsed_ms ticks), row_status = ''OK''\<rparr>],
           push_back (snd st) (fst config) (elapsed_ms ticks))
     else (fst st @ [\<lparr>row_file = file, row_config = fst config,
                       row_time_ms = (if result = 0 then elapsed_ms ticks else - 1),
                       row_throughput = NotAvailable, row_status = ''FAILED''\<rparr>],
           snd st))"
  using assms by (simp add: run_cell_def benchmarkCDSfold_def Let_def elapsed_ms_pos_iff)

theorem run_cell_classification_witness:
  "uniform_env 0 1500 (command_line ''test_10.faa'' (snd (''default'', []))) = (0, 1500)
   \<and> run_cell (uniform_env 0 1500) ''test_10.faa'' 10 (''default'', []) ([], Map.empty) =
     ([\<lparr>row_file = ''test_10.faa'', row_config = ''default'', row_time_ms = elapsed_ms 1500,
        row_throughput = rate 10 (elapsed_ms 1500), row_status = ''OK''\<rparr>],
      push_back Map.empty ''default'' (elapsed_ms 1500))"
proof -
  have h: "uniform_env 0 1500 (command_line ''test_10.faa'' (snd (''default'', []))) = (0, 1500)"
    by (simp add: uniform_env_def)
  show ?thesis
    using h run_cell_classification
      [of "uniform_env 0 1500" "''test_10.faa''" "(''default'', [])" 0 1500 10 "([], Map.empty)"]
    by simp
qed

section \<open>The aggregator\<close>

lemma std_min_min: "std_min a b = min a b"
  by (simp add: std_min_def min_def)

lemma std_max_max: "std_max a b = max a b"
  by (simp add: std_max_def max_def)

lemma stats_loop_min: "fst (snd (stats_loop v (t, mn, mx))) = Min (insert mn (set v))"
proof (induction v arbitrary: t mn mx)
  case Nil show ?case by simp
next
  case (Cons x v)
  have "Min (insert (min mn x) (set v)) = Min (insert mn (insert x (set v)))"
    by (cases "set v = {}") (simp_all add: min.assoc)
  then show ?case using Cons by (simp add: std_min_min)
qed

lemma stats_loop_max: "snd (snd (stats_loop v (t, mn, mx))) = Max (insert mx (set v))"
proof (induction v arbitrary: t mn mx)
  case Nil show ?case by simp
next
  case (Cons x v)
  have "Max (insert (max mx x) (set v)) = Max (insert mx (insert x (set v)))"
    by (cases "set v = {}") (simp_all add: max.assoc)
  then show ?case using Cons by (simp add: std_max_max)
qed

lemma stats_loop_total: "exact_total t v \<Longrightarrow> fst (stats_loop v (t, mn, mx)) = t + sum_list v"
  by (induction v arbitrary: t mn mx) (simp_all add: add.assoc)

lemma summarize_Some:
  assumes "v \<noteq> []"
  shows "summarize v = Some \<lparr>avg_time = round_double (fst (stats_loop v (0, hd v, hd v)) / round_double (of_nat (length v))),
                   min_time = Min (set v), max_time = Max (set v), tests_run = length v\<rparr>"
proof -
  obtain x xs where v: "v = x # xs" using assms by (cases v) auto
  obtain a b c where s: "stats_loop v (0, x, x) = (a, b, c)" by (cases "stats_loop v (0, x, x)")
  have "b = Min (insert x (set v))" using stats_loop_min [of v 0 x x] s by simp
  moreover have "c = Max (insert x (set v))" using stats_loop_max [of v 0 x x] s by simp
  moreover have "insert x (set v) = set v" using v by auto
  ultimately show ?thesis using s v by (simp add: summarize_def)
qed

lemma summarize_None: "summarize v = None \<longleftrightarrow> v = []"
  by (cases v) (auto simp: summarize_def split: prod.splits)

text \<open>
  Claim C7: a configuration label with no recorded sample has no entry in the summary.
  The summary has an entry for a label exactly when at least one sample was recorded
  under it, so no statistic is made up for an empty label.
\<close>

theorem no_data_omitted:
  "(analyzeResults res label = None) = (samples_of res label = [])"
  by (auto simp: analyzeResults_def samples_of_def summarize_None split: option.splits)

text \<open>
  Every sample that a cell records is a double, so the summary is always computed on
  doubles.
\<close>

lemma run_cell_records_doubles:
  assumes "list_all is_double (samples_of (snd st) label)"
  shows "list_all is_double (samples_of (snd (run_cell sys file seq_length config st)) label)"
proof -
  obtain result ticks where "sys (command_line file (snd config)) = (result, ticks)"
    by (cases "sys (command_line file (snd config))")
  then show ?thesis
    using assms by (auto simp: run_cell_def benchmarkCDSfold_def Let_def push_back_def samples_of_def
        is_double_elapsed_ms)
qed

text \<open>
  Three samples whose running totals are exact in every order: \<open>1.5\<close>, \<open>2.5\<close> and
  \<open>3.5\<close> ms.
\<close>

lemma rounding_steps_exact:
  "round_double (3 / 2) = 3 / 2"
  "round_double (5 / 2) = 5 / 2"
  "round_double (7 / 2) = 7 / 2"
  "round_double (4) = 4"
  "round_double (15 / 2) = 15 / 2"
  "round_double (3) = 3"
  "round_double (5) = 5"
  by code_simp+

text \<open>
  The roundings met when seven samples of \<open>1100\<close> microseconds are summarized. The
  fifth, sixth and seventh running totals are not doubles and are rounded.
\<close>

lemma rounding_steps_equal:
  "round_double (1100) = 1100"
  "round_double (11 / 10) = 2476979795053773 / 2251799813685248"
  "round_double (2476979795053773 / 2251799813685248) = 2476979795053773 / 2251799813685248"
  "round_double (2476979795053773 / 1125899906842624) = 2476979795053773 / 1125899906842624"
  "round_double (7430939385161319 / 2251799813685248) = 7430939385161319 / 2251799813685248"
  "round_double (2476979795053773 / 562949953421312) = 2476979795053773 / 562949953421312"
  "round_double (12384898975268865 / 2251799813685248) = 11 / 2"
  "round_double (14861878770322637 / 2251799813685248) = 3715469692580659 / 562949953421312"
  "round_double (17338858565376409 / 2251799813685248) = 2167357320672051 / 281474976710656"
  "round_double (7) = 7"
  "round_double (2167357320672051 / 1970324836974592) = 4953959590107545 / 4503599627370496"
  by code_simp+

lemma elapsed_ms_1100: "elapsed_ms 1100 = 2476979795053773 / 2251799813685248"
  by (simp add: elapsed_ms_def rounding_steps_equal)

text \<open>
  Claim C5, as stated: whenever a configuration has samples, the minimum is at most the
  mean and the mean at most the maximum. It fails for a configuration whose seven runs
  all take \<open>1100\<close> microseconds: minimum and maximum are the double nearest to \<open>1.1\<close>,
  and the mean computed from the rounded total is the next double below it
  (\<open>1.0999999999999999\<close>).
\<close>

theorem mean_below_min_counterexample:
  "summarize [elapsed_ms 1100,
              elapsed_ms 1100,
              elapsed_ms 1100,
              elapsed_ms 1100,
              elapsed_ms 1100,
              elapsed_ms 1100,
              elapsed_ms 1100]
     = Some \<lparr>avg_time = 4953959590107545 / 4503599627370496, min_time = 2476979795053773 / 2251799813685248,
           max_time = 2476979795053773 / 2251799813685248, tests_run = 7\<rparr>
   \<and> \<not> (2476979795053773 / 2251799813685248 \<le> (4953959590107545 / 4503599627370496 :: rat))"
  by (simp add: summarize_def std_min_def std_max_def elapsed_ms_1100 rounding_steps_equal)

text \<open>
  Claim C5, amended: whenever a configuration has samples, the minimum is at most the
  maximum; and if no addition of the running total rounds (the samples being doubles,
  fewer than \<open>2^53\<close> of them), the minimum is at most the mean and the mean at most the
  maximum. The quotient may round: rounding is monotone and leaves the minimum and the
  maximum unchanged.
\<close>

theorem min_mean_max:
  assumes "summarize v = Some st"
  shows "min_time st \<le> max_time st
       \<and> (exact_total 0 v \<and> list_all is_double v \<and> length v < 2 ^ 53
            \<longrightarrow> min_time st \<le> avg_time st \<and> avg_time st \<le> max_time st)"

proof -
  have ne: "v \<noteq> []" using assms summarize_None [of v] by auto
  define n where "n = length v"
  have n0: "0 < n" using ne by (simp add: n_def)
  have st: "st = \<lparr>avg_time = round_double (fst (stats_loop v (0, hd v, hd v)) / round_double (of_nat n)),
                   min_time = Min (set v), max_time = Max (set v), tests_run = n\<rparr>"
    using summarize_Some [OF ne] assms by (simp add: n_def)
  have fin: "finite (set v)" "set v \<noteq> {}" using ne by simp_all
  have mm: "Min (set v) \<le> Max (set v)" using fin by (meson Max_in Min_le)
  have "Min (set v) \<le> avg_time st \<and> avg_time st \<le> Max (set v)"
    if ex: "exact_total 0 v" and dbl: "list_all is_double v" and small: "length v < 2 ^ 53"
  proof -
    have tot: "fst (stats_loop v (0, hd v, hd v)) = sum_list v" using stats_loop_total [OF ex] by simp
    have cnt: "round_double (of_nat n) = of_nat n" using small by (simp add: n_def round_double_of_nat)
    have avg: "avg_time st = round_double (sum_list v / of_nat n)" by (simp add: st tot cnt)
    have lo: "of_nat n * Min (set v) \<le> sum_list v"
      using sum_list_mono [of v "\<lambda>_. Min (set v)" "\<lambda>x. x"] fin by (simp add: sum_list_triv n_def)
    have hi: "sum_list v \<le> of_nat n * Max (set v)"
      using sum_list_mono [of v "\<lambda>x. x" "\<lambda>_. Max (set v)"] fin by (simp add: sum_list_triv n_def)
    have npos: "(0::rat) < of_nat n" using n0 by simp
    have "Min (set v) \<le> sum_list v / of_nat n" using lo npos by (simp add: pos_le_divide_eq mult.commute)
    then have a: "round_double (Min (set v)) \<le> avg_time st" unfolding avg by (rule round_double_mono)
    have "sum_list v / of_nat n \<le> Max (set v)" using hi npos by (simp add: pos_divide_le_eq mult.commute)
    then have b: "avg_time st \<le> round_double (Max (set v))" unfolding avg by (rule round_double_mono)
    have "Min (set v) \<in> set v" "Max (set v) \<in> set v" using fin by (simp_all)
    then have "is_double (Min (set v))" "is_double (Max (set v))" using dbl by (simp_all add: list_all_iff)
    then show ?thesis using a b by (simp add: is_double_def)
  qed
  then show ?thesis using mm by (simp add: st)
qed


theorem min_mean_max_witness:
  "summarize [3 / 2, 5 / 2, 7 / 2]
     = Some \<lparr>avg_time = 5 / 2, min_time = 3 / 2, max_time = 7 / 2, tests_run = 3\<rparr>
   \<and> exact_total 0 [3 / 2, 5 / 2, 7 / 2]
   \<and> list_all is_double [3 / 2, 5 / 2, 7 / 2]
   \<and> length [3 / 2, 5 / 2, 7 / 2 :: rat] < 2 ^ 53
   \<and> (3 / 2 :: rat) \<le> 5 / 2 \<and> (5 / 2 :: rat) \<le> 7 / 2"
proof -
  have s: "summarize [3 / 2, 5 / 2, 7 / 2]
     = Some \<lparr>avg_time = 5 / 2, min_time = 3 / 2, max_time = 7 / 2, tests_run = 3\<rparr>"
    by (simp add: summarize_def std_min_def std_max_def rounding_steps_exact)
  have e: "exact_total 0 [3 / 2, 5 / 2, 7 / 2]" by (simp add: rounding_steps_exact)
  have d: "list_all is_double [3 / 2, 5 / 2, 7 / 2]" by (simp add: is_double_def rounding_steps_exact)
  show ?thesis using min_mean_max [OF s] s e d by simp
qed

text \<open>
  The roundings met when samples of \<open>1100\<close>, \<open>1200\<close> and \<open>1300\<close> microseconds are
  summarized in two orders.
\<close>

lemma rounding_steps_order:
  "round_double (1100) = 1100"
  "round_double (11 / 10) = 2476979795053773 / 2251799813685248"
  "round_double (1200) = 1200"
  "round_double (6 / 5) = 5404319552844595 / 4503599627370496"
  "round_double (1300) = 1300"
  "round_double (13 / 10) = 5854679515581645 / 4503599627370496"
  "round_double (2476979795053773 / 2251799813685248) = 2476979795053773 / 2251799813685248"
  "round_double (10358279142952141 / 4503599627370496) = 2589569785738035 / 1125899906842624"
  "round_double (16212958658533785 / 4503599627370496) = 2026619832316723 / 562949953421312"
  "round_double (3) = 3"
  "round_double (2026619832316723 / 1688849860263936) = 5404319552844595 / 4503599627370496"
  "round_double (10808639105689191 / 4503599627370496) = 1351079888211149 / 562949953421312"
  "round_double (16212958658533787 / 4503599627370496) = 4053239664633447 / 1125899906842624"
  "round_double (1351079888211149 / 1125899906842624) = 1351079888211149 / 1125899906842624"
  by code_simp+

lemma elapsed_ms_values:
  "elapsed_ms 1100 = 2476979795053773 / 2251799813685248"
  "elapsed_ms 1200 = 5404319552844595 / 4503599627370496"
  "elapsed_ms 1300 = 5854679515581645 / 4503599627370496"
  by (simp_all add: elapsed_ms_def rounding_steps_order)

text \<open>
  Claim C6, as stated: any permutation of the samples of a configuration gives the same
  count, mean, minimum and maximum. It fails for the mean: the samples \<open>1.1\<close>, \<open>1.2\<close>
  and \<open>1.3\<close> ms give the mean \<open>1.2\<close> in this order and \<open>1.2000000000000002\<close> in the
  order \<open>1.1\<close>, \<open>1.3\<close>, \<open>1.2\<close>, because the running total is rounded after every
  addition.
\<close>

theorem mean_order_counterexample:
  "mset [elapsed_ms 1100, elapsed_ms 1200, elapsed_ms 1300]
     = mset [elapsed_ms 1100, elapsed_ms 1300, elapsed_ms 1200]
   \<and> summarize [elapsed_ms 1100, elapsed_ms 1200, elapsed_ms 1300]
     = Some \<lparr>avg_time = 5404319552844595 / 4503599627370496, min_time = 2476979795053773 / 2251799813685248,
           max_time = 5854679515581645 / 4503599627370496, tests_run = 3\<rparr>
   \<and> summarize [elapsed_ms 1100, elapsed_ms 1300, elapsed_ms 1200]
     = Some \<lparr>avg_time = 1351079888211149 / 1125899906842624, min_time = 2476979795053773 / 2251799813685248,
           max_time = 5854679515581645 / 4503599627370496, tests_run = 3\<rparr>"
  by (simp add: summarize_def std_min_def std_max_def elapsed_ms_values rounding_steps_order)

text \<open>
  Claim C6, amended: any permutation of the samples of a configuration gives the same
  count, minimum and maximum; it gives the same mean as well when no addition of the
  running total rounds in either order.
\<close>

theorem summarize_permutation:
  assumes "mset xs = mset ys"
  shows "map_option tests_run (summarize xs) = map_option tests_run (summarize ys)
       \<and> map_option min_time (summarize xs) = map_option min_time (summarize ys)
       \<and> map_option max_time (summarize xs) = map_option max_time (summarize ys)
       \<and> (exact_total 0 xs \<and> exact_total 0 ys \<longrightarrow> summarize xs = summarize ys)"

proof (cases "xs = []")
  case True
  then have "ys = []" using assms by simp
  then show ?thesis using True by simp
next
  case False
  then have ys: "ys \<noteq> []" using assms by auto
  have len: "length xs = length ys" using assms by (rule mset_eq_length)
  have st: "set xs = set ys" using assms by (rule mset_eq_setD)
  have sm: "sum_list xs = sum_list ys" using assms by (metis sum_mset_sum_list)
  show ?thesis
    using summarize_Some [OF False] summarize_Some [OF ys] len st sm
    by (simp add: stats_loop_total)
qed


theorem summarize_permutation_witness:
  "mset [3 / 2, 5 / 2, 7 / 2 :: rat] = mset [7 / 2, 3 / 2, 5 / 2]
   \<and> exact_total 0 [3 / 2, 5 / 2, 7 / 2] \<and> exact_total 0 [7 / 2, 3 / 2, 5 / 2]
   \<and> summarize [3 / 2, 5 / 2, 7 / 2] = summarize [7 / 2, 3 / 2, 5 / 2]"
proof -
  have m: "mset [3 / 2, 5 / 2, 7 / 2 :: rat] = mset [7 / 2, 3 / 2, 5 / 2]" by simp
  have e: "exact_total 0 [3 / 2, 5 / 2, 7 / 2]" "exact_total 0 [7 / 2, 3 / 2, 5 / 2]"
    by (simp_all add: rounding_steps_exact)
  show ?thesis using summarize_permutation [OF m] m e by simp
qed


section \<open>File names and sequence lengths\<close>

lemma of_char_digit_char: "d < 10 \<Longrightarrow> (of_char (digit_char d) :: nat) = 48 + d"
  by (simp add: digit_char_def)

lemma isdigit_digit_char: "d < 10 \<Longrightarrow> isdigit (digit_char d)"
  by (simp add: isdigit_def of_char_digit_char)

lemma digit_value_digit_char: "d < 10 \<Longrightarrow> digit_value (digit_char d) = int d"
  by (simp add: digit_value_def of_char_digit_char)

lemma isdigit_not_special:
  assumes "isdigit c"
  shows "\<not> isspace c" "c \<noteq> CHR ''-''" "c \<noteq> CHR ''+''" "c \<noteq> CHR ''_''" "c \<noteq> CHR ''.''"
  using assms by (auto simp: isdigit_def isspace_def)

lemma to_string_digits: "list_all isdigit (to_string n)"
proof (induction n rule: to_string.induct)
  case (1 n)
  show ?case
  proof (cases "n < 10")
    case True
    then show ?thesis by (subst to_string.simps) (simp add: isdigit_digit_char)
  next
    case False
    then show ?thesis using 1 by (subst to_string.simps) (simp add: isdigit_digit_char)
  qed
qed

lemma to_string_nonempty: "to_string n \<noteq> []"
  by (subst to_string.simps) simp

lemma accumulate_snoc: "accumulate acc (cs @ [c]) = accumulate acc cs * 10 + digit_value c"
  by (induction cs arbitrary: acc) simp_all

lemma accumulate_to_string: "accumulate 0 (to_string n) = int n"
proof (induction n rule: to_string.induct)
  case (1 n)
  show ?case
  proof (cases "n < 10")
    case True
    then show ?thesis by (subst to_string.simps) (simp add: digit_value_digit_char)
  next
    case False
    then have "accumulate 0 (to_string (n div 10)) = int (n div 10)" using 1 by simp
    then have "accumulate 0 (to_string n) = int (n div 10) * 10 + int (n mod 10)"
      using False by (subst to_string.simps) (simp add: accumulate_snoc digit_value_digit_char)
    then show ?thesis by (simp add: zdiv_int zmod_int)
  qed
qed

lemma length_to_string: "length (to_string n) \<le> Suc n"
proof (induction n rule: to_string.induct)
  case (1 n)
  show ?case
  proof (cases "n < 10")
    case True
    then show ?thesis by (subst to_string.simps) simp
  next
    case False
    then have "length (to_string (n div 10)) \<le> Suc (n div 10)" using 1 by simp
    moreover have "n div 10 < n" using False by simp
    ultimately show ?thesis using False by (subst to_string.simps) simp
  qed
qed

lemma stoi_to_string:
  assumes "int n \<le> INT_MAX"
  shows "stoi (to_string n) = Inr (int n)"
proof -
  define ds where "ds = to_string n"
  have all: "list_all isdigit ds" unfolding ds_def by (rule to_string_digits)
  obtain c cs where ds: "ds = c # cs" using to_string_nonempty [of n] by (cases ds) (auto simp: ds_def)
  have c: "isdigit c" using all ds by simp
  have dw: "dropWhile isspace ds = ds" using isdigit_not_special(1) [OF c] ds by simp
  have tw: "takeWhile isdigit ds = ds" using all by (simp add: list_all_iff)
  have v: "accumulate 0 ds = int n" unfolding ds_def by (rule accumulate_to_string)
  have "in_int (int n)" using assms by (simp add: in_int_def INT_MIN_def)
  then show ?thesis
    using dw tw v isdigit_not_special(2,3) [OF c] ds
    unfolding ds_def [symmetric] by (simp add: stoi_def Let_def)
qed

lemma find_from_first: "c \<notin> set xs \<Longrightarrow> find_from c (xs @ c # ys) i = i + length xs"
  by (induction xs arbitrary: i) auto

lemma seq_length_of_test_filename:
  assumes "int n \<le> INT_MAX"
  shows "seq_length_of (test_filename n) = Inr (int n)"
proof -
  define ds where "ds = to_string n"
  have all: "list_all isdigit ds" unfolding ds_def by (rule to_string_digits)
  have nd: "CHR ''.'' \<notin> set ds" using all isdigit_not_special(5) by (auto simp: list_all_iff)
  have len: "length ds < 2 ^ 64 - 5"
  proof -
    have "n < 2 ^ 31" using assms by (simp add: INT_MAX_def)
    then have "length ds < 2 ^ 31 + 1" using length_to_string [of n] unfolding ds_def by linarith
    then show ?thesis by simp
  qed
  have f: "test_filename n = ''test_'' @ ds @ ''.faa''" by (simp add: test_filename_def ds_def)
  have p1: "find_char (test_filename n) CHR ''_'' = 4"
    using find_from_first [of "CHR ''_''" "''test''" "ds @ ''.faa''" 0] by (simp add: f find_char_def)
  have "CHR ''.'' \<notin> set (''test_'' @ ds)" using nd by simp
  then have "find_from CHR ''.'' ((''test_'' @ ds) @ CHR ''.'' # ''faa'') 0 = 0 + length (''test_'' @ ds)"
    by (rule find_from_first)
  then have p2: "find_char (test_filename n) CHR ''.'' = 5 + length ds" by (simp add: f find_char_def)
  have a: "size_add 4 (Suc 0) = 5" by (simp add: size_add_def)
  have b: "size_sub (5 + length ds) 5 = length ds" using len by (simp add: size_sub_def)
  have s: "substr (test_filename n) 5 (length ds) = Inr ds" by (simp add: substr_def f)
  show ?thesis using stoi_to_string [OF assms]
    by (simp add: seq_length_of_def p1 p2 a b s Let_def ds_def [symmetric])
qed

lemma to_string_values:
  "to_string 10 = ''10''" "to_string 25 = ''25''" "to_string 50 = ''50''" "to_string 100 = ''100''"
  "to_string 200 = ''200''" "to_string 500 = ''500''" "to_string 1000 = ''1000''"
  by code_simp+

lemma test_files_names: "map test_filename lengths = test_files"
  by (simp add: lengths_def test_files_def test_filename_def to_string_values)


text \<open>
  Claim C10: for every length \<open>N\<close> that \<^verbatim>\<open>createTestFiles\<close> uses, the file it writes is
  one of the files that the matrix runner visits, and parsing its name (the text between
  the first \<open>_\<close> and the first \<open>.\<close>) gives back \<open>N\<close>.
\<close>

theorem filename_roundtrip:
  assumes "N \<in> set lengths"
  shows "seq_length_of (test_filename N) = Inr (int N) \<and> test_filename N \<in> set test_files"
proof -
  have "int N \<le> INT_MAX" using assms by (auto simp: lengths_def INT_MAX_def)
  then have "seq_length_of (test_filename N) = Inr (int N)" by (rule seq_length_of_test_filename)
  moreover have "test_filename N \<in> set (map test_filename lengths)" using assms by simp
  ultimately show ?thesis by (simp add: test_files_names)
qed

theorem filename_roundtrip_witness:
  "(100::nat) \<in> set lengths \<and> seq_length_of ''test_100.faa'' = Inr 100
   \<and> ''test_100.faa'' \<in> set test_files"
proof -
  have h: "(100::nat) \<in> set lengths" by (simp add: lengths_def)
  show ?thesis using h filename_roundtrip [OF h, unfolded test_filename_def to_string_values] by simp
qed


section \<open>The corpus generator\<close>

lemma sequence_loop_eq:
  "sequence_loop draw n acc rng = (acc @ map ((!) amino_acids) (draws draw n rng), advance draw n rng)"
  by (induction n arbitrary: acc rng) (simp_all split: prod.splits)

lemma generateTestSequence_eq:
  "generateTestSequence draw len rng =
     (header len @ map ((!) amino_acids) (draws draw len rng), advance draw len rng)"
  by (simp add: generateTestSequence_def sequence_loop_eq)

lemma draws_range:
  assumes "\<And>s. fst (draw s) < k"
  shows "set (draws draw n rng) \<subseteq> {..<k}"
proof (induction n arbitrary: rng)
  case 0 show ?case by simp
next
  case (Suc n)
  obtain i rng' where d: "draw rng = (i, rng')" by (cases "draw rng")
  have "i < k" using assms [of rng] d by simp
  then show ?case using Suc [of rng'] d by simp
qed

lemma distinct_amino_acids: "distinct amino_acids"
  by (simp add: amino_acids_def)

lemma amino_acids_inj: "inj_on ((!) amino_acids) {..<length amino_acids}"
  using distinct_amino_acids by (auto simp: inj_on_def nth_eq_iff_index_eq)


lemma counter_range: "fst (counter_draw s) < length amino_acids"
  by (simp add: counter_draw_def amino_acids_def)

text \<open>
  Claim C2, as stated: two invocations with the same length within one run give the same
  bytes. The generator is a member of the benchmark object and every draw advances it,
  so the second invocation starts where the first one stopped. With the counting
  generator the first sequence of length \<open>10\<close> has the payload \<open>ACDEFGHIKL\<close> and the
  second one \<open>MNPQRSTVWY\<close>.
\<close>

theorem generate_repeated_counterexample:
  "generateTestSequence counter_draw 10 0 = (''>10_test_sequence\<newline>ACDEFGHIKL'', 10)
   \<and> generateTestSequence counter_draw 10 10 = (''>10_test_sequence\<newline>MNPQRSTVWY'', 20)"
  by code_simp

text \<open>
  Claim C2, amended: the output of an invocation is the header line of the length followed
  by the symbols of the next \<open>length\<close> draws of the generator, which it leaves advanced
  by \<open>length\<close> draws. So the output is determined by the length and the state of the
  generator on entry, hence the same in every process run from the same seed; and an
  invocation repeated within one run gives the same bytes exactly when the generator
  yields the same \<open>length\<close> draws again.
\<close>

theorem generate_from_state:
  assumes "\<And>s. fst (draw s) < length amino_acids"
  shows "generateTestSequence draw len rng =
           (header len @ map ((!) amino_acids) (draws draw len rng), advance draw len rng)
       \<and> ((fst (generateTestSequence draw len (snd (generateTestSequence draw len rng)))
             = fst (generateTestSequence draw len rng))
          = (draws draw len (advance draw len rng) = draws draw len rng))"

proof -
  let ?a = "draws draw len (advance draw len rng)" and ?b = "draws draw len rng"
  have "set ?a \<union> set ?b \<subseteq> {..<length amino_acids}"
    using draws_range [of draw "length amino_acids", OF assms] by simp
  then have "inj_on ((!) amino_acids) (set ?a \<union> set ?b)"
    using amino_acids_inj by (rule inj_on_subset [rotated])
  then have "(map ((!) amino_acids) ?a = map ((!) amino_acids) ?b) = (?a = ?b)"
    by (rule inj_on_map_eq_map)
  then show ?thesis by (simp add: generateTestSequence_eq)
qed


theorem generate_from_state_witness:
  "(\<forall>s. fst (counter_draw s) < length amino_acids)
   \<and> generateTestSequence counter_draw 3 0 =
       (header 3 @ map ((!) amino_acids) (draws counter_draw 3 0), advance counter_draw 3 0)
   \<and> ((fst (generateTestSequence counter_draw 3 (snd (generateTestSequence counter_draw 3 0)))
         = fst (generateTestSequence counter_draw 3 0))
      = (draws counter_draw 3 (advance counter_draw 3 0) = draws counter_draw 3 0))"
proof -
  have r: "\<forall>s. fst (counter_draw s) < length amino_acids" using counter_range by simp
  show ?thesis using generate_from_state [of counter_draw 3 0, OF counter_range] r by blast
qed

section \<open>Exit status of the harness\<close>

lemma length_run_cell: "length (fst (run_cell sys file n config st)) = Suc (length (fst st))"
  by (simp add: run_cell_def Let_def)

lemma length_run_configs:
  "length (fst (run_configs sys file n configs st)) = length (fst st) + length configs"
  by (induction configs arbitrary: st) (simp_all add: length_run_cell)

lemma run_files_rows:
  assumes "list_all (\<lambda>f. \<exists>n. seq_length_of f = Inr n) files"
  shows "\<exists>st'. run_files sys files configs st = Inr st'
           \<and> length (fst st') = length (fst st) + length files * length configs"
  using assms
proof (induction files arbitrary: st)
  case Nil
  show ?case by simp
next
  case (Cons f files)
  then obtain n where n: "seq_length_of f = Inr n" by auto
  have "list_all (\<lambda>f. \<exists>n. seq_length_of f = Inr n) files" using Cons.prems by simp
  then obtain st' where "run_files sys files configs (run_configs sys f n configs st) = Inr st'"
    "length (fst st') = length (fst (run_configs sys f n configs st)) + length files * length configs"
    using Cons.IH by blast
  then show ?case using n by (simp add: length_run_configs)
qed

lemma test_files_parse: "list_all (\<lambda>f. \<exists>n. seq_length_of f = Inr n) test_files"
proof -
  have "list_all (\<lambda>N. int N \<le> INT_MAX) lengths" by (simp add: lengths_def INT_MAX_def)
  then have "list_all (\<lambda>f. \<exists>n. seq_length_of f = Inr n) (map test_filename lengths)"
    by (auto simp: list_all_iff seq_length_of_test_filename)
  then show ?thesis by (simp only: test_files_names)
qed

lemma runBenchmarkSuite_rows:
  "\<exists>rs res'. runBenchmarkSuite sys res = Inr (rs, res') \<and> length rs = 35"
proof -
  obtain st' where "run_files sys test_files test_configs ([], res) = Inr st'"
    "length (fst st') = length (fst ([]::row list, res)) + length test_files * length test_configs"
    using run_files_rows [OF test_files_parse] by blast
  moreover have "length test_files * length test_configs = 35"
    by (simp add: test_files_def test_configs_def)
  ultimately show ?thesis by (cases st') (simp add: runBenchmarkSuite_def)
qed

lemma length_write_files: "length (fst (write_files draw lens rng)) = length lens"
proof (induction lens arbitrary: rng)
  case Nil
  show ?case by simp
next
  case (Cons len lens)
  obtain content rng' where g: "generateTestSequence draw len rng = (content, rng')"
    by (cases "generateTestSequence draw len rng")
  obtain files rng'' where w: "write_files draw lens rng' = (files, rng'')"
    by (cases "write_files draw lens rng'")
  have "length files = length lens" using Cons [of rng'] w by simp
  then show ?case using g w by simp
qed


text \<open>
  Claim C9: the harness returns \<open>1\<close> when the test for the executable fails, after the
  warning and before any file is written or any cell is run; otherwise it writes the
  seven files, runs all \<open>35\<close> cells and returns \<open>0\<close>, whatever the cells return. No
  exception ends the run early, since the seven file names all parse.
\<close>

theorem main_exit_code:
  "\<exists>r. main draw seed sys = Inr r
      \<and> exit_code r = (if fst (sys ''test -f ./src/CDSfold'') \<noteq> 0 then 1 else 0)
      \<and> not_found_warning r = (fst (sys ''test -f ./src/CDSfold'') \<noteq> 0)
      \<and> length (files_written r) = (if fst (sys ''test -f ./src/CDSfold'') \<noteq> 0 then 0 else 7)
      \<and> length (rows r) = (if fst (sys ''test -f ./src/CDSfold'') \<noteq> 0 then 0 else 35)"

proof (cases "fst (sys ''test -f ./src/CDSfold'') \<noteq> 0")
  case True
  then show ?thesis by (simp add: main_def)
next
  case False
  obtain rs res' where r: "runBenchmarkSuite sys Map.empty = Inr (rs, res')" "length rs = 35"
    using runBenchmarkSuite_rows by blast
  obtain files rng where c: "createTestFiles draw seed = (files, rng)" by (cases "createTestFiles draw seed")
  have "length files = 7" using length_write_files [of draw lengths seed] c
    by (simp add: createTestFiles_def lengths_def)
  then show ?thesis using False r c by (simp add: main_def)
qed

section \<open>Runs of the harness that meet the rounding\<close>

lemma seq_length_values:
  "seq_length_of ''test_10.faa'' = Inr 10" "seq_length_of ''test_25.faa'' = Inr 25"
  "seq_length_of ''test_50.faa'' = Inr 50" "seq_length_of ''test_100.faa'' = Inr 100"
  "seq_length_of ''test_200.faa'' = Inr 200" "seq_length_of ''test_500.faa'' = Inr 500"
  "seq_length_of ''test_1000.faa'' = Inr 1000"
  using seq_length_of_test_filename [of 10] seq_length_of_test_filename [of 25]
    seq_length_of_test_filename [of 50] seq_length_of_test_filename [of 100]
    seq_length_of_test_filename [of 200] seq_length_of_test_filename [of 500]
    seq_length_of_test_filename [of 1000]
  by (simp_all add: test_filename_def to_string_values INT_MAX_def)

lemma main_reported:
  assumes "fst (sys ''test -f ./src/CDSfold'') = 0"
    and "map_sum id (\<lambda>st. snd st label) (runBenchmarkSuite sys Map.empty) = Inr (Some v)"
  shows "reported (main draw seed sys) label = summarize v"
proof -
  obtain rs res where r: "runBenchmarkSuite sys Map.empty = Inr (rs, res)"
    using runBenchmarkSuite_rows [of sys Map.empty] by blast
  then have "res label = Some v" using assms(2) by simp
  then show ?thesis
    using assms(1) r by (simp add: reported_def main_def analyzeResults_def split: prod.splits)
qed

text \<open>
  When every cell of a run succeeds in \<open>1100\<close> microseconds, the summary of the default
  configuration shows a mean below the minimum.
\<close>

lemma steady_run_samples:
  "map_sum id (\<lambda>st. snd st ''default'') (runBenchmarkSuite (uniform_env 0 1100) Map.empty)
   = Inr (Some [elapsed_ms 1100, elapsed_ms 1100, elapsed_ms 1100, elapsed_ms 1100,
                elapsed_ms 1100, elapsed_ms 1100, elapsed_ms 1100])"
  by (simp add: runBenchmarkSuite_def test_files_def test_configs_def seq_length_values
      run_cell_def benchmarkCDSfold_def uniform_env_def elapsed_ms_pos push_back_def
      samples_of_def Let_def)

lemma steady_run_summary:
  "reported (main counter_draw 0 (uniform_env 0 1100)) ''default''
   = Some \<lparr>avg_time = 4953959590107545 / 4503599627370496,
           min_time = 2476979795053773 / 2251799813685248,
           max_time = 2476979795053773 / 2251799813685248, tests_run = 7\<rparr>"
proof -
  have "fst (uniform_env 0 1100 ''test -f ./src/CDSfold'') = 0" by (simp add: uniform_env_def)
  then have "reported (main counter_draw 0 (uniform_env 0 1100)) ''default''
    = summarize [elapsed_ms 1100, elapsed_ms 1100, elapsed_ms 1100, elapsed_ms 1100,
                 elapsed_ms 1100, elapsed_ms 1100, elapsed_ms 1100]"
    using steady_run_samples by (rule main_reported)
  then show ?thesis
    by (simp add: summarize_def std_min_def std_max_def elapsed_ms_1100 rounding_steps_equal)
qed

text \<open>
  The two runs defined above record the same three samples for the default
  configuration, in two orders, and their summaries show two different means.
\<close>

lemma first_run_samples:
  "map_sum id (\<lambda>st. snd st ''default'') (runBenchmarkSuite (table_env first_run) Map.empty)
   = Inr (Some [elapsed_ms 1100, elapsed_ms 1200, elapsed_ms 1300])"
  by (simp add: runBenchmarkSuite_def test_files_def test_configs_def seq_length_values
      run_cell_def benchmarkCDSfold_def table_env_def first_run_def command_line_def
      elapsed_ms_pos push_back_def samples_of_def Let_def)

lemma second_run_samples:
  "map_sum id (\<lambda>st. snd st ''default'') (runBenchmarkSuite (table_env second_run) Map.empty)
   = Inr (Some [elapsed_ms 1100, elapsed_ms 1300, elapsed_ms 1200])"
  by (simp add: runBenchmarkSuite_def test_files_def test_configs_def seq_length_values
      run_cell_def benchmarkCDSfold_def table_env_def second_run_def command_line_def
      elapsed_ms_pos push_back_def samples_of_def Let_def)

lemma two_runs_summary:
  "reported (main counter_draw 0 (table_env first_run)) ''default''
     = Some \<lparr>avg_time = 5404319552844595 / 4503599627370496,
             min_time = 2476979795053773 / 2251799813685248,
             max_time = 5854679515581645 / 4503599627370496, tests_run = 3\<rparr>
   \<and> reported (main counter_draw 0 (table_env second_run)) ''default''
     = Some \<lparr>avg_time = 1351079888211149 / 1125899906842624,
             min_time = 2476979795053773 / 2251799813685248,
             max_time = 5854679515581645 / 4503599627370496, tests_run = 3\<rparr>"
proof -
  have a: "fst (table_env first_run ''test -f ./src/CDSfold'') = 0"
    by (simp add: table_env_def first_run_def)
  have b: "fst (table_env second_run ''test -f ./src/CDSfold'') = 0"
    by (simp add: table_env_def second_run_def)
  have "reported (main counter_draw 0 (table_env first_run)) ''default''
    = summarize [elapsed_ms 1100, elapsed_ms 1200, elapsed_ms 1300]"
    using a first_run_samples by (rule main_reported)
  moreover have "reported (main counter_draw 0 (table_env second_run)) ''default''
    = summarize [elapsed_ms 1100, elapsed_ms 1300, elapsed_ms 1200]"
    using b second_run_samples by (rule main_reported)
  ultimately show ?thesis
    by (simp add: summarize_def std_min_def std_max_def elapsed_ms_values rounding_steps_order)
qed

text \<open>
  When every cell of a run exits with status \<open>0\<close> after \<open>0\<close> microseconds, no sample is
  recorded and the summary is empty, although no command failed.
\<close>

lemma zero_duration_run:
  "reported (main counter_draw 0 (uniform_env 0 0)) label = None"
proof -
  obtain rs res where r: "runBenchmarkSuite (uniform_env 0 0) Map.empty = Inr (rs, res)"
    using runBenchmarkSuite_rows [of "uniform_env 0 0" Map.empty] by blast
  have "map_sum id snd (runBenchmarkSuite (uniform_env 0 0) Map.empty) = Inr Map.empty"
    by (simp add: runBenchmarkSuite_def test_files_def test_configs_def seq_length_values
        run_cell_def benchmarkCDSfold_def uniform_env_def elapsed_ms_0 Let_def)
  then have "res = Map.empty" using r by simp
  then show ?thesis
    using r by (simp add: reported_def main_def uniform_env_def analyzeResults_def split: prod.splits)
qed

end
